theory Spec2Isabelle
  imports Main "HOL-Library.Word"
begin

unbundle bit_operations_syntax

section \<open>Data model of libutils/Looper.cpp\<close>

text \<open>
  The Looper multiplexes readiness of registered file descriptors and timed messages.
  The embedding follows \<^verbatim>\<open>src/libutils/Looper.cpp\<close> function by function.  C \<^verbatim>\<open>int\<close>
  values (descriptors, identifiers, event masks, timeouts, result codes) are \<^typ>\<open>int\<close>:
  the code only compares and masks them.  \<^verbatim>\<open>nsecs_t\<close> is \<^typ>\<open>int\<close> as well.  A
  \<^verbatim>\<open>SequenceNumber\<close> is a \<^verbatim>\<open>uint64_t\<close> that the code increments and lets wrap, so it
  is a 64-bit word.  Smart pointers to handlers and callbacks and \<^verbatim>\<open>void*\<close> user data are
  addresses (\<^typ>\<open>nat\<close>); a null \<^verbatim>\<open>sp<LooperCallback>\<close> is \<open>None\<close>.
\<close>

type_synonym SequenceNumber = "64 word"
type_synonym nsecs_t = int
type_synonym handler_ptr = nat
type_synonym callback_ptr = nat
type_synonym data_ptr = nat

definition WAKE_EVENT_FD_SEQ :: SequenceNumber where
  "WAKE_EVENT_FD_SEQ = 1"

definition LLONG_MAX :: int where
  "LLONG_MAX = 2 ^ 63 - 1"

text \<open>Result codes and event bits of \<^verbatim>\<open>utils/Looper.h\<close> (values as in section 6 of the
  specification).\<close>

definition POLL_WAKE :: int where "POLL_WAKE = -1"
definition POLL_CALLBACK :: int where "POLL_CALLBACK = -2"
definition POLL_TIMEOUT :: int where "POLL_TIMEOUT = -3"
definition POLL_ERROR :: int where "POLL_ERROR = -4"

definition EVENT_INPUT :: int where "EVENT_INPUT = 1"
definition EVENT_OUTPUT :: int where "EVENT_OUTPUT = 2"
definition EVENT_ERROR :: int where "EVENT_ERROR = 4"
definition EVENT_HANGUP :: int where "EVENT_HANGUP = 8"

definition PREPARE_ALLOW_NON_CALLBACKS :: int where
  "PREPARE_ALLOW_NON_CALLBACKS = 1"

text \<open>Kernel constants of \<^verbatim>\<open>sys/epoll.h\<close> and \<^verbatim>\<open>sys/event.h\<close>.\<close>

definition EPOLLIN :: int where "EPOLLIN = 1"
definition EPOLLOUT :: int where "EPOLLOUT = 4"
definition EPOLLERR :: int where "EPOLLERR = 8"
definition EPOLLHUP :: int where "EPOLLHUP = 16"

definition EVFILT_READ :: int where "EVFILT_READ = -1"
definition EVFILT_WRITE :: int where "EVFILT_WRITE = -2"
definition EV_ADD :: int where "EV_ADD = 1"
definition EV_DELETE :: int where "EV_DELETE = 2"
definition EV_ENABLE :: int where "EV_ENABLE = 4"
definition EV_ERROR :: int where "EV_ERROR = 16384"
definition EV_EOF :: int where "EV_EOF = 32768"

text \<open>The code is compiled for one of two kernel facilities.\<close>

datatype platform = HAVE_EPOLL | HAVE_KQUEUE

record Message =
  what :: int

record Request =
  fd :: int
  ident :: int
  events :: int
  callback :: "callback_ptr option"
  data :: data_ptr

record Response =
  rsp_seq :: SequenceNumber
  rsp_events :: int
  rsp_request :: Request

record MessageEnvelope =
  uptime :: nsecs_t
  handler :: handler_ptr
  message :: Message

record epoll_event =
  ep_events :: int
  ep_u64 :: SequenceNumber

record kevent =
  kev_ident :: int
  kev_filter :: int
  kev_flags :: int
  kev_fflags :: int
  kev_data :: int
  kev_udata :: SequenceNumber

datatype event_item = EpollItem epoll_event | KqueueItem kevent

subsection \<open>The world outside the Looper\<close>

text \<open>
  System calls, the clock and the user's callbacks are not part of the Looper.  Their
  answers are inputs of the model (an \<open>env\<close>), and what the Looper does to them is
  recorded, in order, in the \<open>effects\<close> field of the state.  In the functions of the
  loop core below, handlers and callbacks are run for their effect on the outside world
  only.  Handlers and callbacks that call the Looper while they run are the subject of
  the section on user code, whose functions extend those of the loop core and agree with
  them when user code makes no call.
\<close>

datatype errno = EINTR | EBADF | ENOENT | EAGAIN | EOTHER nat

datatype sys_result = Success | Failure errno

datatype write_result = Written | WriteFailed errno

datatype wait_result = WaitFailed errno | WaitReturned "event_item list"

datatype ctl_op = EPOLL_CTL_ADD | EPOLL_CTL_MOD | EPOLL_CTL_DEL

datatype effect =
    WakeWrite
  | WakeRead
  | KernelCreate
  | EpollCtl ctl_op int "epoll_event option"
  | EpollRebuildAdd "SequenceNumber \<rightharpoonup> Request"
  | EpollWait int
  | KeventChange "kevent list"
  | KqueueRebuildAdd "SequenceNumber \<rightharpoonup> Request"
  | KeventWait "(int \<times> int) option"
  | HandleMessage handler_ptr Message
  | HandleEvent callback_ptr int int data_ptr

datatype fatal =
    FatalWakeEventFd
  | FatalCreateInstance
  | FatalAddWakeEventFd
  | FatalWakeWrite
  | FatalInconsistent
  | NullCallback

text \<open>
  \<open>toMillisecondTimeoutDelay\<close> belongs to \<^verbatim>\<open>libutils/Timers.cpp\<close>, which is not among the
  sources; it is a parameter of the model, as the clock is.
\<close>

record env =
  eventfd_res :: int
  kernel_create :: int
  epoll_ctl :: "ctl_op \<Rightarrow> int \<Rightarrow> sys_result"
  kevent_change :: "kevent list \<Rightarrow> sys_result"
  wake_write :: write_result
  kernel_wait :: wait_result
  systemTime_entry :: nsecs_t
  systemTime_drain :: "nat \<Rightarrow> nsecs_t"
  systemTime_after :: nsecs_t
  toMillisecondTimeoutDelay :: "nsecs_t \<Rightarrow> nsecs_t \<Rightarrow> int"
  handleEvent :: "callback_ptr \<Rightarrow> int \<Rightarrow> int \<Rightarrow> data_ptr \<Rightarrow> int"

record looper =
  mAllowNonCallbacks :: bool
  mSendingMessage :: bool
  mPolling :: bool
  mEpollRebuildRequired :: bool
  mNextRequestSeq :: SequenceNumber
  mResponseIndex :: nat
  mNextMessageUptime :: nsecs_t
  mWakeEventFd :: int
  mEpollFd :: int
  mRequests :: "SequenceNumber \<rightharpoonup> Request"
  mSequenceNumberByFd :: "int \<rightharpoonup> SequenceNumber"
  mResponses :: "Response list"
  mMessageEnvelopes :: "MessageEnvelope list"
  effects :: "effect list"

definition emit :: "effect \<Rightarrow> looper \<Rightarrow> looper" where
  "emit e s = s\<lparr>effects := effects s @ [e]\<rparr>"

text \<open>\<^verbatim>\<open>std::unordered_map::emplace\<close> inserts only when the key is absent.\<close>

definition emplace :: "('k \<rightharpoonup> 'v) \<Rightarrow> 'k \<Rightarrow> 'v \<Rightarrow> ('k \<rightharpoonup> 'v)" where
  "emplace m k v = (case m k of None \<Rightarrow> m(k \<mapsto> v) | Some _ \<Rightarrow> m)"

section \<open>Kernel event construction\<close>

definition createEpollEvent :: "int \<Rightarrow> SequenceNumber \<Rightarrow> epoll_event" where
  "createEpollEvent evs sq = \<lparr>ep_events = evs, ep_u64 = sq\<rparr>"

text \<open>\<^verbatim>\<open>static_cast<uintptr_t>(fd)\<close> on a 64-bit target.\<close>

definition uintptr_of :: "int \<Rightarrow> int" where
  "uintptr_of i = i mod 2 ^ 64"

definition createKqueueEvent :: "int \<Rightarrow> int \<Rightarrow> SequenceNumber \<Rightarrow> kevent" where
  "createKqueueEvent f filt sq =
     \<lparr>kev_ident = uintptr_of f, kev_filter = filt, kev_flags = EV_ADD OR EV_ENABLE,
      kev_fflags = 0, kev_data = 0, kev_udata = sq\<rparr>"

definition createKqueueEvents :: "int \<Rightarrow> int list \<Rightarrow> SequenceNumber \<Rightarrow> kevent list" where
  "createKqueueEvents f filters sq = map (\<lambda>filt. createKqueueEvent f filt sq) filters"

definition createKqueueEventsForDelete :: "int \<Rightarrow> SequenceNumber \<Rightarrow> kevent list" where
  "createKqueueEventsForDelete f sq =
     (let eventItem = \<lparr>kev_ident = uintptr_of f, kev_filter = EVFILT_READ,
                        kev_flags = EV_DELETE, kev_fflags = 0, kev_data = 0, kev_udata = sq\<rparr>
      in [eventItem, eventItem\<lparr>kev_filter := EVFILT_WRITE\<rparr>])"

definition getEpollEvents :: "Request \<Rightarrow> int" where
  "getEpollEvents r =
     (if events r AND EVENT_INPUT \<noteq> 0 then EPOLLIN else 0) OR
     (if events r AND EVENT_OUTPUT \<noteq> 0 then EPOLLOUT else 0)"

definition getKqueueFilters :: "Request \<Rightarrow> int list" where
  "getKqueueFilters r =
     (if events r AND EVENT_INPUT \<noteq> 0 then [EVFILT_READ] else []) @
     (if events r AND EVENT_OUTPUT \<noteq> 0 then [EVFILT_WRITE] else [])"

section \<open>Wake channel and rebuild\<close>

definition wake :: "env \<Rightarrow> looper \<Rightarrow> fatal + looper" where
  "wake y s =
     (case wake_write y of
        Written \<Rightarrow> Inr (emit WakeWrite s)
      | WriteFailed e \<Rightarrow>
          (if e \<noteq> EAGAIN then Inl FatalWakeWrite else Inr (emit WakeWrite s)))"

definition awoken :: "looper \<Rightarrow> looper" where
  "awoken s = emit WakeRead s"

definition rebuildEpollLocked :: "platform \<Rightarrow> env \<Rightarrow> looper \<Rightarrow> fatal + looper" where
  "rebuildEpollLocked p y s =
     (let s1 = emit KernelCreate (s\<lparr>mEpollFd := kernel_create y\<rparr>) in
      if mEpollFd s1 < 0 then Inl FatalCreateInstance
      else (case p of
          HAVE_EPOLL \<Rightarrow>
            (let wakeEvent = createEpollEvent EPOLLIN WAKE_EVENT_FD_SEQ;
                 s2 = emit (EpollCtl EPOLL_CTL_ADD (mWakeEventFd s1) (Some wakeEvent)) s1
             in if epoll_ctl y EPOLL_CTL_ADD (mWakeEventFd s1) \<noteq> Success
                then Inl FatalAddWakeEventFd
                else Inr (emit (EpollRebuildAdd (mRequests s2)) s2))
        | HAVE_KQUEUE \<Rightarrow>
            (let wakeEvent = createKqueueEvent (mWakeEventFd s1) EVFILT_READ WAKE_EVENT_FD_SEQ;
                 s2 = emit (KeventChange [wakeEvent]) s1
             in if kevent_change y [wakeEvent] \<noteq> Success
                then Inl FatalAddWakeEventFd
                else Inr (emit (KqueueRebuildAdd (mRequests s2)) s2))))"

definition scheduleEpollRebuildLocked :: "env \<Rightarrow> looper \<Rightarrow> fatal + looper" where
  "scheduleEpollRebuildLocked y s =
     (if \<not> mEpollRebuildRequired s
      then wake y (s\<lparr>mEpollRebuildRequired := True\<rparr>)
      else Inr s)"

text \<open>The constructor: the member initialisers, then the first build of the kernel
  set.\<close>

definition newLooper :: "bool \<Rightarrow> int \<Rightarrow> looper" where
  "newLooper allowNonCallbacks wakeFd =
     \<lparr>mAllowNonCallbacks = allowNonCallbacks, mSendingMessage = False, mPolling = False,
      mEpollRebuildRequired = False, mNextRequestSeq = WAKE_EVENT_FD_SEQ + 1,
      mResponseIndex = 0, mNextMessageUptime = LLONG_MAX,
      mWakeEventFd = wakeFd, mEpollFd = -1,
      mRequests = Map.empty, mSequenceNumberByFd = Map.empty,
      mResponses = [], mMessageEnvelopes = [], effects = []\<rparr>"

definition Looper :: "platform \<Rightarrow> env \<Rightarrow> bool \<Rightarrow> fatal + looper" where
  "Looper p y allowNonCallbacks =
     (if eventfd_res y < 0 then Inl FatalWakeEventFd
      else rebuildEpollLocked p y (newLooper allowNonCallbacks (eventfd_res y)))"

section \<open>Request table: addFd, removeFd, repoll\<close>

text \<open>Replacement of the registration of a descriptor that already has one: the old
  entry is erased, the new one emplaced, the index slot overwritten.\<close>

definition replaceRequest ::
  "looper \<Rightarrow> int \<Rightarrow> SequenceNumber \<Rightarrow> SequenceNumber \<Rightarrow> Request \<Rightarrow> looper" where
  "replaceRequest s f oldSeq sq request =
     s\<lparr>mRequests := emplace ((mRequests s)(oldSeq := None)) sq request,
       mSequenceNumberByFd := (mSequenceNumberByFd s)(f \<mapsto> sq)\<rparr>"

definition insertRequest :: "looper \<Rightarrow> int \<Rightarrow> SequenceNumber \<Rightarrow> Request \<Rightarrow> looper" where
  "insertRequest s f sq request =
     s\<lparr>mRequests := emplace (mRequests s) sq request,
       mSequenceNumberByFd := emplace (mSequenceNumberByFd s) f sq\<rparr>"

definition addFd_epoll ::
  "env \<Rightarrow> looper \<Rightarrow> int \<Rightarrow> SequenceNumber \<Rightarrow> Request \<Rightarrow> fatal + (int \<times> looper)" where
  "addFd_epoll y s f sq request =
     (let eventItem = createEpollEvent (getEpollEvents request) sq in
      case mSequenceNumberByFd s f of
        None \<Rightarrow>
          (let s1 = emit (EpollCtl EPOLL_CTL_ADD f (Some eventItem)) s in
           case epoll_ctl y EPOLL_CTL_ADD f of
             Failure e \<Rightarrow> Inr (-1, s1)
           | Success \<Rightarrow> Inr (1, insertRequest s1 f sq request))
      | Some oldSeq \<Rightarrow>
          (let s1 = emit (EpollCtl EPOLL_CTL_MOD f (Some eventItem)) s in
           case epoll_ctl y EPOLL_CTL_MOD f of
             Success \<Rightarrow> Inr (1, replaceRequest s1 f oldSeq sq request)
           | Failure e \<Rightarrow>
               (if e = ENOENT then
                  (let s2 = emit (EpollCtl EPOLL_CTL_ADD f (Some eventItem)) s1 in
                   case epoll_ctl y EPOLL_CTL_ADD f of
                     Failure e2 \<Rightarrow> Inr (-1, s2)
                   | Success \<Rightarrow>
                       (case scheduleEpollRebuildLocked y s2 of
                          Inl x \<Rightarrow> Inl x
                        | Inr s3 \<Rightarrow> Inr (1, replaceRequest s3 f oldSeq sq request)))
                else Inr (-1, s1))))"

definition addFd_kqueue ::
  "env \<Rightarrow> looper \<Rightarrow> int \<Rightarrow> SequenceNumber \<Rightarrow> Request \<Rightarrow> fatal + (int \<times> looper)" where
  "addFd_kqueue y s f sq request =
     (let eventItems = createKqueueEvents f (getKqueueFilters request) sq;
          s1 = emit (KeventChange eventItems) s
      in case mSequenceNumberByFd s f of
        None \<Rightarrow>
          (case kevent_change y eventItems of
             Failure e \<Rightarrow> Inr (-1, s1)
           | Success \<Rightarrow> Inr (1, insertRequest s1 f sq request))
      | Some oldSeq \<Rightarrow>
          (case kevent_change y eventItems of
             Failure e \<Rightarrow> Inr (-1, s1)
           | Success \<Rightarrow> Inr (1, replaceRequest s1 f oldSeq sq request)))"

definition addFd ::
  "platform \<Rightarrow> env \<Rightarrow> looper \<Rightarrow> int \<Rightarrow> int \<Rightarrow> int \<Rightarrow> callback_ptr option \<Rightarrow> data_ptr
     \<Rightarrow> fatal + (int \<times> looper)" where
  "addFd p y s f idt evs cb d =
     (if cb = None \<and> \<not> mAllowNonCallbacks s then Inr (-1, s)
      else if cb = None \<and> idt < 0 then Inr (-1, s)
      else
        (let idt1 = (if cb = None then idt else POLL_CALLBACK);
             s1 = (if mNextRequestSeq s = WAKE_EVENT_FD_SEQ
                   then s\<lparr>mNextRequestSeq := mNextRequestSeq s + 1\<rparr> else s);
             sq = mNextRequestSeq s1;
             s2 = s1\<lparr>mNextRequestSeq := sq + 1\<rparr>;
             request = \<lparr>fd = f, ident = idt1, events = evs, callback = cb, data = d\<rparr>
         in case p of
              HAVE_EPOLL \<Rightarrow> addFd_epoll y s2 f sq request
            | HAVE_KQUEUE \<Rightarrow> addFd_kqueue y s2 f sq request))"

text \<open>The sequence number the next registration gets (the wake channel's is skipped).\<close>

definition nextSeq :: "looper \<Rightarrow> SequenceNumber" where
  "nextSeq s =
     (if mNextRequestSeq s = WAKE_EVENT_FD_SEQ then mNextRequestSeq s + 1
      else mNextRequestSeq s)"

definition removeSequenceNumberLocked ::
  "platform \<Rightarrow> env \<Rightarrow> looper \<Rightarrow> SequenceNumber \<Rightarrow> fatal + (int \<times> looper)" where
  "removeSequenceNumberLocked p y s sq =
     (case mRequests s sq of
        None \<Rightarrow> Inr (0, s)
      | Some request \<Rightarrow>
          (let f = fd request;
               s1 = s\<lparr>mRequests := (mRequests s)(sq := None),
                       mSequenceNumberByFd := (mSequenceNumberByFd s)(f := None)\<rparr>;
               s2 = (case p of
                       HAVE_EPOLL \<Rightarrow> emit (EpollCtl EPOLL_CTL_DEL f None) s1
                     | HAVE_KQUEUE \<Rightarrow>
                         emit (KeventChange (createKqueueEventsForDelete (mEpollFd s1) sq)) s1);
               res = (case p of
                        HAVE_EPOLL \<Rightarrow> epoll_ctl y EPOLL_CTL_DEL f
                      | HAVE_KQUEUE \<Rightarrow>
                          kevent_change y (createKqueueEventsForDelete (mEpollFd s1) sq))
           in case res of
                Success \<Rightarrow> Inr (1, s2)
              | Failure e \<Rightarrow>
                  (case scheduleEpollRebuildLocked y s2 of
                     Inl x \<Rightarrow> Inl x
                   | Inr s3 \<Rightarrow> (if e = EBADF \<or> e = ENOENT then Inr (1, s3) else Inr (-1, s3)))))"

definition removeFd :: "platform \<Rightarrow> env \<Rightarrow> looper \<Rightarrow> int \<Rightarrow> fatal + (int \<times> looper)" where
  "removeFd p y s f =
     (case mSequenceNumberByFd s f of
        None \<Rightarrow> Inr (0, s)
      | Some sq \<Rightarrow> removeSequenceNumberLocked p y s sq)"

definition repoll :: "platform \<Rightarrow> env \<Rightarrow> looper \<Rightarrow> int \<Rightarrow> fatal + (int \<times> looper)" where
  "repoll p y s f =
     (case mSequenceNumberByFd s f of
        None \<Rightarrow> Inr (0, s)
      | Some sq \<Rightarrow>
          (case mRequests s sq of
             None \<Rightarrow> Inr (0, s)
           | Some request \<Rightarrow>
               (if f \<noteq> fd request then Inl FatalInconsistent
                else (case p of
                    HAVE_EPOLL \<Rightarrow>
                      (let eventItem = createEpollEvent (getEpollEvents request) sq;
                           s1 = emit (EpollCtl EPOLL_CTL_MOD f (Some eventItem)) s
                       in if epoll_ctl y EPOLL_CTL_MOD f \<noteq> Success then Inr (0, s1)
                          else Inr (1, s1))
                  | HAVE_KQUEUE \<Rightarrow>
                      (let eventItems = createKqueueEvents f (getKqueueFilters request) sq;
                           s1 = emit (KeventChange eventItems) s
                       in if kevent_change y eventItems \<noteq> Success then Inr (0, s1)
                          else Inr (1, s1))))))"

section \<open>Message queue\<close>

text \<open>The scan of \<open>sendMessageAtTime\<close>: the index moves right while the envelope under it
  is not later than the new deadline.\<close>

function scanPosition :: "MessageEnvelope list \<Rightarrow> nsecs_t \<Rightarrow> nat \<Rightarrow> nat" where
  "scanPosition q t i =
     (if i < length q \<and> t \<ge> uptime (q ! i) then scanPosition q t (i + 1) else i)"
  by pat_completeness auto
termination
  by (relation "measure (\<lambda>(q, t, i). length q - i)") auto

declare scanPosition.simps [simp del]

definition insertAt :: "'a \<Rightarrow> nat \<Rightarrow> 'a list \<Rightarrow> 'a list" where
  "insertAt x i xs = take i xs @ x # drop i xs"

definition removeAt :: "'a list \<Rightarrow> nat \<Rightarrow> 'a list" where
  "removeAt xs i = take i xs @ drop (Suc i) xs"

definition sendMessageAtTime ::
  "env \<Rightarrow> looper \<Rightarrow> nsecs_t \<Rightarrow> handler_ptr \<Rightarrow> Message \<Rightarrow> fatal + looper" where
  "sendMessageAtTime y s t h m =
     (let i = scanPosition (mMessageEnvelopes s) t 0;
          messageEnvelope = \<lparr>uptime = t, handler = h, message = m\<rparr>;
          s1 = s\<lparr>mMessageEnvelopes := insertAt messageEnvelope i (mMessageEnvelopes s)\<rparr>
      in if mSendingMessage s1 then Inr s1
         else if i = 0 then wake y s1
         else Inr s1)"

definition sendMessage :: "env \<Rightarrow> looper \<Rightarrow> handler_ptr \<Rightarrow> Message \<Rightarrow> fatal + looper" where
  "sendMessage y s h m = sendMessageAtTime y s (systemTime_entry y) h m"

text \<open>\<^verbatim>\<open>nsecs_t\<close> is an \<^verbatim>\<open>int64_t\<close>: the sum of the clock and the delay is taken in 64
  bits and wraps, as in the compiled code.\<close>

definition nsecs_add :: "nsecs_t \<Rightarrow> nsecs_t \<Rightarrow> nsecs_t" where
  "nsecs_add a b = sint (word_of_int (a + b) :: 64 word)"

definition sendMessageDelayed ::
  "env \<Rightarrow> looper \<Rightarrow> nsecs_t \<Rightarrow> handler_ptr \<Rightarrow> Message \<Rightarrow> fatal + looper" where
  "sendMessageDelayed y s uptimeDelay h m =
     sendMessageAtTime y s (nsecs_add (systemTime_entry y) uptimeDelay) h m"

text \<open>Both \<open>removeMessages\<close> walk the vector from its last index down to 0.\<close>

fun removeLoop ::
  "(MessageEnvelope \<Rightarrow> bool) \<Rightarrow> MessageEnvelope list \<Rightarrow> nat \<Rightarrow> MessageEnvelope list" where
  "removeLoop P q 0 = q"
| "removeLoop P q (Suc i) = removeLoop P (if P (q ! i) then removeAt q i else q) i"

definition removeMessages :: "looper \<Rightarrow> handler_ptr \<Rightarrow> looper" where
  "removeMessages s h =
     s\<lparr>mMessageEnvelopes :=
         removeLoop (\<lambda>e. handler e = h) (mMessageEnvelopes s) (length (mMessageEnvelopes s))\<rparr>"

definition removeMessagesWhat :: "looper \<Rightarrow> handler_ptr \<Rightarrow> int \<Rightarrow> looper" where
  "removeMessagesWhat s h w =
     s\<lparr>mMessageEnvelopes :=
         removeLoop (\<lambda>e. handler e = h \<and> what (message e) = w)
           (mMessageEnvelopes s) (length (mMessageEnvelopes s))\<rparr>"

section \<open>The loop core: pollInner\<close>

definition adjustTimeout :: "env \<Rightarrow> looper \<Rightarrow> int \<Rightarrow> int" where
  "adjustTimeout y s timeoutMillis =
     (if timeoutMillis \<noteq> 0 \<and> mNextMessageUptime s \<noteq> LLONG_MAX then
        (let now = systemTime_entry y;
             messageTimeoutMillis = toMillisecondTimeoutDelay y now (mNextMessageUptime s)
         in if messageTimeoutMillis \<ge> 0
               \<and> (timeoutMillis < 0 \<or> messageTimeoutMillis < timeoutMillis)
            then messageTimeoutMillis else timeoutMillis)
      else timeoutMillis)"

text \<open>The wait itself: epoll takes the milliseconds; kqueue takes a \<open>timespec\<close>, or a null
  pointer for a negative timeout.\<close>

definition kernelWait :: "platform \<Rightarrow> int \<Rightarrow> looper \<Rightarrow> looper" where
  "kernelWait p timeoutMillis s =
     (case p of
        HAVE_EPOLL \<Rightarrow> emit (EpollWait timeoutMillis) s
      | HAVE_KQUEUE \<Rightarrow>
          emit (KeventWait (if timeoutMillis < 0 then None
                            else Some (timeoutMillis div 1000,
                                       (timeoutMillis mod 1000) * 1000000))) s)"

definition item_seq :: "event_item \<Rightarrow> SequenceNumber" where
  "item_seq it = (case it of EpollItem e \<Rightarrow> ep_u64 e | KqueueItem k \<Rightarrow> kev_udata k)"

definition item_is_read :: "event_item \<Rightarrow> bool" where
  "item_is_read it =
     (case it of
        EpollItem e \<Rightarrow> ep_events e AND EPOLLIN \<noteq> 0
      | KqueueItem k \<Rightarrow> kev_filter k = EVFILT_READ)"

definition item_events :: "event_item \<Rightarrow> int" where
  "item_events it =
     (case it of
        EpollItem e \<Rightarrow>
          (if ep_events e AND EPOLLIN \<noteq> 0 then EVENT_INPUT else 0) OR
          (if ep_events e AND EPOLLOUT \<noteq> 0 then EVENT_OUTPUT else 0) OR
          (if ep_events e AND EPOLLERR \<noteq> 0 then EVENT_ERROR else 0) OR
          (if ep_events e AND EPOLLHUP \<noteq> 0 then EVENT_HANGUP else 0)
      | KqueueItem k \<Rightarrow>
          (if kev_filter k = EVFILT_READ then EVENT_INPUT else 0) OR
          (if kev_filter k = EVFILT_WRITE then EVENT_OUTPUT else 0) OR
          (if kev_flags k AND EV_ERROR \<noteq> 0 then EVENT_ERROR else 0) OR
          (if kev_flags k AND EV_EOF \<noteq> 0 then EVENT_HANGUP else 0))"

text \<open>The body of the loop over the items the wait returned.\<close>

definition handleItem :: "looper \<Rightarrow> event_item \<Rightarrow> looper" where
  "handleItem s it =
     (let sq = item_seq it in
      if sq = WAKE_EVENT_FD_SEQ then (if item_is_read it then awoken s else s)
      else (case mRequests s sq of
              Some request \<Rightarrow>
                s\<lparr>mResponses := mResponses s @
                    [\<lparr>rsp_seq = sq, rsp_events = item_events it, rsp_request = request\<rparr>]\<rparr>
            | None \<Rightarrow> s))"

text \<open>From the lock to the label \<open>Done\<close>: rebuild, wait errors, timeout, translation.\<close>

definition pollEvents :: "platform \<Rightarrow> env \<Rightarrow> looper \<Rightarrow> fatal + (int \<times> looper)" where
  "pollEvents p y s =
     (if mEpollRebuildRequired s then
        (case rebuildEpollLocked p y (s\<lparr>mEpollRebuildRequired := False\<rparr>) of
           Inl x \<Rightarrow> Inl x
         | Inr s1 \<Rightarrow> Inr (POLL_WAKE, s1))
      else (case kernel_wait y of
          WaitFailed e \<Rightarrow> (if e = EINTR then Inr (POLL_WAKE, s) else Inr (POLL_ERROR, s))
        | WaitReturned eventItems \<Rightarrow>
            (if length eventItems = 0 then Inr (POLL_TIMEOUT, s)
             else Inr (POLL_WAKE, foldl handleItem s eventItems))))"

text \<open>The message loop; \<open>k\<close> counts its readings of the clock.\<close>

function drainMessages :: "env \<Rightarrow> nat \<Rightarrow> looper \<Rightarrow> int \<Rightarrow> int \<times> looper" where
  "drainMessages y k s result =
     (case mMessageEnvelopes s of
        [] \<Rightarrow> (result, s)
      | messageEnvelope # rest \<Rightarrow>
          (if uptime messageEnvelope \<le> systemTime_drain y k then
             drainMessages y (Suc k)
               (emit (HandleMessage (handler messageEnvelope) (message messageEnvelope))
                  (s\<lparr>mMessageEnvelopes := rest, mSendingMessage := True\<rparr>)
                \<lparr>mSendingMessage := False\<rparr>)
               POLL_CALLBACK
           else (result, s\<lparr>mNextMessageUptime := uptime messageEnvelope\<rparr>)))"
  by pat_completeness auto
termination
  by (relation "measure (\<lambda>(y, k, s, result). length (mMessageEnvelopes s))")
     (auto simp: emit_def)

declare drainMessages.simps [simp del]

lemma removeSequenceNumberLocked_responses:
  "removeSequenceNumberLocked p y s sq = Inr (r, s') \<Longrightarrow> mResponses s' = mResponses s"
  by (auto simp: removeSequenceNumberLocked_def scheduleEpollRebuildLocked_def wake_def
      emit_def Let_def split: option.splits sys_result.splits sum.splits if_splits
      platform.splits write_result.splits)

text \<open>The loop over the responses.  Its body, for a response whose identifier is
  \<open>POLL_CALLBACK\<close>: the callback runs, a result of 0 unregisters the sequence number of
  the response, and the callback reference of the response is cleared.\<close>

definition invokeCallback :: "platform \<Rightarrow> env \<Rightarrow> nat \<Rightarrow> looper \<Rightarrow> fatal + looper" where
  "invokeCallback p y i s =
     (let response = mResponses s ! i in
      case callback (rsp_request response) of
        None \<Rightarrow> Inl NullCallback
      | Some cb \<Rightarrow>
          (let f = fd (rsp_request response);
               evs = rsp_events response;
               d = data (rsp_request response);
               s1 = emit (HandleEvent cb f evs d) s;
               callbackResult = handleEvent y cb f evs d
           in case (if callbackResult = 0
                    then removeSequenceNumberLocked p y s1 (rsp_seq response)
                    else Inr (0, s1)) of
                Inl x \<Rightarrow> Inl x
              | Inr (r, s2) \<Rightarrow>
                  Inr (s2\<lparr>mResponses := (mResponses s2)
                            [i := response\<lparr>rsp_request :=
                                   (rsp_request response)\<lparr>callback := None\<rparr>\<rparr>]\<rparr>)))"

lemma invokeCallback_length:
  "invokeCallback p y i s = Inr s' \<Longrightarrow> length (mResponses s') = length (mResponses s)"
  by (auto simp: invokeCallback_def Let_def emit_def split: option.splits sum.splits
      if_splits dest!: removeSequenceNumberLocked_responses)

function invokeCallbacks ::
  "platform \<Rightarrow> env \<Rightarrow> nat \<Rightarrow> looper \<Rightarrow> int \<Rightarrow> fatal + (int \<times> looper)" where
  "invokeCallbacks p y i s result =
     (if i < length (mResponses s) then
        (if ident (rsp_request (mResponses s ! i)) = POLL_CALLBACK then
           (case invokeCallback p y i s of
              Inl x \<Rightarrow> Inl x
            | Inr s1 \<Rightarrow> invokeCallbacks p y (i + 1) s1 POLL_CALLBACK)
         else invokeCallbacks p y (i + 1) s result)
      else Inr (result, s))"
  by pat_completeness auto
termination
  by (relation "measure (\<lambda>(p, y, i, s, result). length (mResponses s) - i)")
     (auto dest!: invokeCallback_length)

declare invokeCallbacks.simps [simp del]

definition pollInner :: "platform \<Rightarrow> env \<Rightarrow> looper \<Rightarrow> int \<Rightarrow> fatal + (int \<times> looper)" where
  "pollInner p y s timeoutMillis =
     (let t = adjustTimeout y s timeoutMillis;
          s1 = s\<lparr>mResponses := [], mResponseIndex := 0, mPolling := True\<rparr>;
          s2 = kernelWait p t s1;
          s3 = s2\<lparr>mPolling := False\<rparr>
      in case pollEvents p y s3 of
           Inl x \<Rightarrow> Inl x
         | Inr (result, s4) \<Rightarrow>
             (case drainMessages y 0 (s4\<lparr>mNextMessageUptime := LLONG_MAX\<rparr>) result of
                (result1, s5) \<Rightarrow> invokeCallbacks p y 0 s5 result1))"

text \<open>Every inner poll ends with one of the four result codes, so never with 0.\<close>

definition is_result_code :: "int \<Rightarrow> bool" where
  "is_result_code r =
     (r = POLL_WAKE \<or> r = POLL_CALLBACK \<or> r = POLL_TIMEOUT \<or> r = POLL_ERROR)"

lemma pollEvents_result:
  "pollEvents p y s = Inr (r, s') \<Longrightarrow> r = POLL_WAKE \<or> r = POLL_TIMEOUT \<or> r = POLL_ERROR"
  by (auto simp: pollEvents_def split: if_splits sum.splits wait_result.splits)

lemma drainMessages_result:
  "drainMessages y k s r = (r', s') \<Longrightarrow> r' = r \<or> r' = POLL_CALLBACK"
proof (induction y k s r rule: drainMessages.induct)
  case (1 y k s result)
  from "1.prems" show ?case
    by (subst (asm) drainMessages.simps) (auto split: list.splits if_splits dest: "1.IH")
qed

lemma invokeCallbacks_result:
  "invokeCallbacks p y i s r = Inr (r', s') \<Longrightarrow> r' = r \<or> r' = POLL_CALLBACK"
proof (induction p y i s r rule: invokeCallbacks.induct)
  case (1 p y i s result)
  from "1.prems" show ?case
    by (subst (asm) invokeCallbacks.simps) (auto split: if_splits sum.splits dest: "1.IH")
qed

lemma pollInner_result:
  "pollInner p y s t = Inr (r, s') \<Longrightarrow> is_result_code r"
  unfolding pollInner_def Let_def is_result_code_def
  by (auto split: sum.splits prod.splits
      dest!: pollEvents_result drainMessages_result invokeCallbacks_result)

lemma pollInner_nonzero: "pollInner p y s t = Inr (r, s') \<Longrightarrow> r \<noteq> 0"
  by (auto dest!: pollInner_result
      simp: is_result_code_def POLL_WAKE_def POLL_CALLBACK_def POLL_TIMEOUT_def POLL_ERROR_def)

section \<open>pollOnce and pollAll\<close>

text \<open>The inner \<open>while\<close> of \<open>pollOnce\<close>: the response index moves forward to the next
  response with a non-negative identifier, which is handed out, or to the end.\<close>

function nextIdentifier :: "looper \<Rightarrow> Response option \<times> looper" where
  "nextIdentifier s =
     (if mResponseIndex s < length (mResponses s) then
        (let response = mResponses s ! mResponseIndex s;
             s1 = s\<lparr>mResponseIndex := mResponseIndex s + 1\<rparr>
         in if ident (rsp_request response) \<ge> 0 then (Some response, s1)
            else nextIdentifier s1)
      else (None, s))"
  by pat_completeness auto
termination
  by (relation "measure (\<lambda>s. length (mResponses s) - mResponseIndex s)") auto

declare nextIdentifier.simps [simp del]

text \<open>What a call hands back: the returned value and the three out parameters
  (\<open>outFd\<close>, \<open>outEvents\<close>, \<open>outData\<close>), as written through non-null pointers.\<close>

type_synonym poll_return = "int \<times> int \<times> int \<times> data_ptr"

text \<open>The \<open>for (;;)\<close> of \<open>pollOnce\<close>, with the local \<open>result\<close> as an argument.  It ends
  because an inner poll never yields 0.\<close>

function pollOnce_loop ::
  "platform \<Rightarrow> env \<Rightarrow> int \<Rightarrow> looper \<Rightarrow> int \<Rightarrow> fatal + (poll_return \<times> looper)" where
  "pollOnce_loop p y timeoutMillis s result =
     (case nextIdentifier s of
        (Some response, s1) \<Rightarrow>
          Inr ((ident (rsp_request response), fd (rsp_request response),
                rsp_events response, data (rsp_request response)), s1)
      | (None, s1) \<Rightarrow>
          (if result \<noteq> 0 then Inr ((result, 0, 0, 0), s1)
           else (case pollInner p y s1 timeoutMillis of
                   Inl x \<Rightarrow> Inl x
                 | Inr (r, s2) \<Rightarrow> pollOnce_loop p y timeoutMillis s2 r)))"
  by pat_completeness auto
termination
  by (relation "measure (\<lambda>(p, y, t, s, result). if result = 0 then 1 else 0)")
     (auto dest!: pollInner_nonzero)

declare pollOnce_loop.simps [simp del]

definition pollOnce ::
  "platform \<Rightarrow> env \<Rightarrow> looper \<Rightarrow> int \<Rightarrow> fatal + (poll_return \<times> looper)" where
  "pollOnce p y s timeoutMillis = pollOnce_loop p y timeoutMillis s 0"

text \<open>\<open>milliseconds_to_nanoseconds\<close> of \<^verbatim>\<open>utils/Timers.h\<close>.\<close>

definition milliseconds_to_nanoseconds :: "int \<Rightarrow> nsecs_t" where
  "milliseconds_to_nanoseconds ms = ms * 1000000"

text \<open>
  \<open>pollAll\<close> calls \<open>pollOnce\<close> again and again, each call meeting its own environment:
  the list \<open>ys\<close> holds them in order.  The loops may run for ever; a run that needs more
  environments than \<open>ys\<close> holds has not returned, which is \<open>None\<close>.
\<close>

fun pollAll_nowait ::
  "platform \<Rightarrow> env list \<Rightarrow> looper \<Rightarrow> int \<Rightarrow> (fatal + (poll_return \<times> looper)) option" where
  "pollAll_nowait p [] s timeoutMillis = None"
| "pollAll_nowait p (y # ys) s timeoutMillis =
     (case pollOnce p y s timeoutMillis of
        Inl x \<Rightarrow> Some (Inl x)
      | Inr (ret, s1) \<Rightarrow>
          (if fst ret = POLL_CALLBACK then pollAll_nowait p ys s1 timeoutMillis
           else Some (Inr (ret, s1))))"

fun pollAll_deadline ::
  "platform \<Rightarrow> env list \<Rightarrow> looper \<Rightarrow> int \<Rightarrow> nsecs_t
     \<Rightarrow> (fatal + (poll_return \<times> looper)) option" where
  "pollAll_deadline p [] s timeoutMillis endTime = None"
| "pollAll_deadline p (y # ys) s timeoutMillis endTime =
     (case pollOnce p y s timeoutMillis of
        Inl x \<Rightarrow> Some (Inl x)
      | Inr (ret, s1) \<Rightarrow>
          (if fst ret \<noteq> POLL_CALLBACK then Some (Inr (ret, s1))
           else (let now = systemTime_after y;
                     timeoutMillis1 = toMillisecondTimeoutDelay y now endTime
                 in if timeoutMillis1 = 0 then Some (Inr ((POLL_TIMEOUT, snd ret), s1))
                    else pollAll_deadline p ys s1 timeoutMillis1 endTime)))"

definition pollAll ::
  "platform \<Rightarrow> nsecs_t \<Rightarrow> env list \<Rightarrow> looper \<Rightarrow> int
     \<Rightarrow> (fatal + (poll_return \<times> looper)) option" where
  "pollAll p now0 ys s timeoutMillis =
     (if timeoutMillis \<le> 0 then pollAll_nowait p ys s timeoutMillis
      else pollAll_deadline p ys s timeoutMillis
             (now0 + milliseconds_to_nanoseconds timeoutMillis))"

section \<open>Registration: argument checks of addFd\<close>

text \<open>A concrete environment and a freshly built Looper, for the instances below.\<close>

definition sample_env :: env where
  "sample_env =
     \<lparr>eventfd_res = 3, kernel_create = 4, epoll_ctl = (\<lambda>op f. Success),
      kevent_change = (\<lambda>ks. Success), wake_write = Written,
      kernel_wait = WaitReturned [], systemTime_entry = 0, systemTime_drain = (\<lambda>k. 0),
      systemTime_after = 0,
      toMillisecondTimeoutDelay =
        (\<lambda>now t. if t \<le> now then 0 else (t - now + 999999) div 1000000),
      handleEvent = (\<lambda>cb f e d. 1)\<rparr>"

definition sample_looper :: looper where
  "sample_looper = (newLooper True 3)\<lparr>mEpollFd := 4\<rparr>"

definition newRequest ::
  "int \<Rightarrow> int \<Rightarrow> int \<Rightarrow> callback_ptr option \<Rightarrow> data_ptr \<Rightarrow> Request" where
  "newRequest f idt evs cb d =
     \<lparr>fd = f, ident = (if cb = None then idt else POLL_CALLBACK), events = evs,
      callback = cb, data = d\<rparr>"

lemma addFd_return:
  "addFd p y s f idt evs cb d = Inr (r, s') \<Longrightarrow> r = 1 \<or> r = -1"
  by (auto simp: addFd_def addFd_epoll_def addFd_kqueue_def Let_def
      split: if_splits platform.splits option.splits sys_result.splits sum.splits)

lemma addFd_failure:
  "addFd p y s f idt evs cb d = Inr (-1, s') \<Longrightarrow>
     mRequests s' = mRequests s \<and> mSequenceNumberByFd s' = mSequenceNumberByFd s"
  by (auto simp: addFd_def addFd_epoll_def addFd_kqueue_def Let_def emit_def
      split: if_splits platform.splits option.splits sys_result.splits sum.splits)

lemma addFd_success_new:
  "addFd p y s f idt evs cb d = Inr (1, s') \<Longrightarrow> mSequenceNumberByFd s f = None \<Longrightarrow>
     mRequests s' = emplace (mRequests s) (nextSeq s) (newRequest f idt evs cb d)
     \<and> mSequenceNumberByFd s' = (mSequenceNumberByFd s)(f \<mapsto> nextSeq s)"
  by (auto simp: addFd_def addFd_epoll_def addFd_kqueue_def Let_def emit_def nextSeq_def
      newRequest_def insertRequest_def emplace_def
      split: if_splits platform.splits option.splits sys_result.splits sum.splits)

lemma addFd_success_replace:
  "addFd p y s f idt evs cb d = Inr (1, s') \<Longrightarrow> mSequenceNumberByFd s f = Some oldSeq \<Longrightarrow>
     mRequests s' = emplace ((mRequests s)(oldSeq := None)) (nextSeq s) (newRequest f idt evs cb d)
     \<and> mSequenceNumberByFd s' = (mSequenceNumberByFd s)(f \<mapsto> nextSeq s)"
  by (auto simp: addFd_def addFd_epoll_def addFd_kqueue_def Let_def emit_def nextSeq_def
      newRequest_def replaceRequest_def scheduleEpollRebuildLocked_def wake_def
      split: if_splits platform.splits option.splits sys_result.splits sum.splits write_result.splits)

lemma addFd_kernel_success:
  assumes "cb \<noteq> None \<or> (mAllowNonCallbacks s \<and> 0 \<le> idt)"
    and "\<forall>op. epoll_ctl y op f = Success" and "\<forall>ks. kevent_change y ks = Success"
  shows "\<exists>s'. addFd p y s f idt evs cb d = Inr (1, s')"
  using assms
  by (auto simp: addFd_def addFd_epoll_def addFd_kqueue_def Let_def
      split: platform.splits option.splits)

text \<open>
  Claim C8.  \<open>addFd\<close> with a null callback returns \<open>-1\<close> and leaves the whole state as it
  was when the Looper does not allow non-callbacks or when the identifier is negative.
  With a callback, every request the call adds to the table has its identifier forced to
  \<open>POLL_CALLBACK\<close>, whatever the \<open>ident\<close> argument.  The call returns 1 or \<open>-1\<close> only, and
  1 when the arguments are accepted and the kernel accepts the registration; the new
  request is then stored under the allocated sequence number.
\<close>

theorem addFd_argument_check:
  "(cb = None \<and> (\<not> mAllowNonCallbacks s \<or> idt < 0) \<longrightarrow>
      addFd p y s f idt evs cb d = Inr (-1, s))
   \<and> (\<forall>r s'. addFd p y s f idt evs cb d = Inr (r, s') \<longrightarrow>
        (r = 1 \<or> r = -1)
        \<and> (\<forall>sq q. cb \<noteq> None \<and> mRequests s' sq = Some q \<and> mRequests s sq \<noteq> Some q \<longrightarrow>
              q = \<lparr>fd = f, ident = POLL_CALLBACK, events = evs, callback = cb, data = d\<rparr>))
   \<and> ((cb \<noteq> None \<or> (mAllowNonCallbacks s \<and> 0 \<le> idt))
        \<and> (\<forall>op. epoll_ctl y op f = Success) \<and> (\<forall>ks. kevent_change y ks = Success) \<longrightarrow>
        (\<exists>s'. addFd p y s f idt evs cb d = Inr (1, s')
           \<and> (mRequests s (nextSeq s) = None \<longrightarrow>
                mRequests s' (nextSeq s) = Some (newRequest f idt evs cb d))))"
proof (intro conjI impI allI)
  assume "cb = None \<and> (\<not> mAllowNonCallbacks s \<or> idt < 0)"
  then show "addFd p y s f idt evs cb d = Inr (-1, s)" by (auto simp: addFd_def)
next
  fix r s' assume "addFd p y s f idt evs cb d = Inr (r, s')"
  then show "r = 1 \<or> r = -1" by (rule addFd_return)
next
  fix r s' sq q
  assume a: "addFd p y s f idt evs cb d = Inr (r, s')"
    and b: "cb \<noteq> None \<and> mRequests s' sq = Some q \<and> mRequests s sq \<noteq> Some q"
  from a have "r = 1 \<or> r = -1" by (rule addFd_return)
  then show "q = \<lparr>fd = f, ident = POLL_CALLBACK, events = evs, callback = cb, data = d\<rparr>"
  proof
    assume "r = -1" with a b show ?thesis by (auto dest: addFd_failure)
  next
    assume r1: "r = 1"
    show ?thesis
    proof (cases "mSequenceNumberByFd s f")
      case None
      from addFd_success_new[OF a[unfolded r1] None] b show ?thesis
        by (auto simp: emplace_def newRequest_def split: option.splits if_splits)
    next
      case (Some oldSeq)
      from addFd_success_replace[OF a[unfolded r1] Some] b show ?thesis
        by (auto simp: emplace_def newRequest_def split: option.splits if_splits)
    qed
  qed
next
  assume h: "(cb \<noteq> None \<or> mAllowNonCallbacks s \<and> 0 \<le> idt) \<and>
    (\<forall>op. epoll_ctl y op f = Success) \<and> (\<forall>ks. kevent_change y ks = Success)"
  then obtain s' where a: "addFd p y s f idt evs cb d = Inr (1, s')"
    using addFd_kernel_success by blast
  have "mRequests s (nextSeq s) = None \<longrightarrow>
          mRequests s' (nextSeq s) = Some (newRequest f idt evs cb d)"
  proof (cases "mSequenceNumberByFd s f")
    case None
    from addFd_success_new[OF a None] show ?thesis by (auto simp: emplace_def)
  next
    case (Some oldSeq)
    from addFd_success_replace[OF a Some] show ?thesis by (auto simp: emplace_def)
  qed
  with a show "\<exists>s'. addFd p y s f idt evs cb d = Inr (1, s')
           \<and> (mRequests s (nextSeq s) = None \<longrightarrow>
                mRequests s' (nextSeq s) = Some (newRequest f idt evs cb d))"
    by (intro exI[of _ s']) simp
qed

theorem addFd_argument_check_witness:
  "addFd HAVE_KQUEUE sample_env sample_looper 5 (-1) 1 None 0 = Inr (-1, sample_looper)
   \<and> (\<exists>s'. addFd HAVE_EPOLL sample_env sample_looper 5 9 1 (Some 77) 0 = Inr (1, s')
        \<and> mRequests s' 2 =
            Some \<lparr>fd = 5, ident = POLL_CALLBACK, events = 1, callback = Some 77, data = 0\<rparr>)"
  using addFd_argument_check[of None sample_looper "-1" HAVE_KQUEUE sample_env 5 1 0]
    addFd_argument_check[of "Some 77" sample_looper 9 HAVE_EPOLL sample_env 5 1 0]
  by (simp add: sample_looper_def sample_env_def newLooper_def nextSeq_def
      WAKE_EVENT_FD_SEQ_def newRequest_def)

section \<open>Message queue: order of the envelopes\<close>

lemma scanPosition_takeWhile:
  "i \<le> length q \<Longrightarrow>
     scanPosition q t i = i + length (takeWhile (\<lambda>e. uptime e \<le> t) (drop i q))"
proof (induction q t i rule: scanPosition.induct)
  case (1 q t i)
  show ?case
  proof (cases "i < length q \<and> uptime (q ! i) \<le> t")
    case True
    then have d: "drop i q = q ! i # drop (Suc i) q"
      by (simp add: Cons_nth_drop_Suc)
    from True "1.IH" have "scanPosition q t (i + 1) =
        i + 1 + length (takeWhile (\<lambda>e. uptime e \<le> t) (drop (i + 1) q))"
      by simp
    with True d show ?thesis by (subst scanPosition.simps) simp
  next
    case False
    show ?thesis
    proof (cases "i < length q")
      case True
      with False have d: "drop i q = q ! i # drop (Suc i) q" and n: "\<not> uptime (q ! i) \<le> t"
        by (simp_all add: Cons_nth_drop_Suc)
      from False d n show ?thesis by (subst scanPosition.simps) simp
    next
      case False
      with "1.prems" show ?thesis by (subst scanPosition.simps) simp
    qed
  qed
qed

lemma scanPosition_0:
  "scanPosition q t 0 = length (takeWhile (\<lambda>e. uptime e \<le> t) q)"
  using scanPosition_takeWhile[of 0 q t] by simp

lemma insertAt_scan:
  "insertAt e (scanPosition q t 0) q =
     takeWhile (\<lambda>x. uptime x \<le> t) q @ e # dropWhile (\<lambda>x. uptime x \<le> t) q"
  by (simp add: insertAt_def scanPosition_0 takeWhile_eq_take[symmetric]
      dropWhile_eq_drop[symmetric])

lemma dropWhile_later:
  "sorted (map uptime q) \<Longrightarrow> x \<in> set (dropWhile (\<lambda>x. uptime x \<le> t) q) \<Longrightarrow> t < uptime x"
  by (induction q) (auto split: if_splits)

lemma sorted_insert_scan:
  assumes "sorted (map uptime q)" and "uptime e = t"
  shows "sorted (map uptime (insertAt e (scanPosition q t 0) q))"
proof -
  let ?P = "\<lambda>x. uptime x \<le> t"
  have a: "sorted (map uptime (takeWhile ?P q))"
    using assms(1) by (metis sorted_append map_append takeWhile_dropWhile_id)
  have b: "sorted (map uptime (dropWhile ?P q))"
    using assms(1) by (metis sorted_append map_append takeWhile_dropWhile_id)
  have c: "\<forall>x \<in> set (takeWhile ?P q). uptime x \<le> t"
    by (auto dest: set_takeWhileD)
  have d: "\<forall>x \<in> set (dropWhile ?P q). t < uptime x"
    using assms(1) by (auto dest: dropWhile_later)
  from a b c d assms(2) show ?thesis
    by (fastforce simp: insertAt_scan sorted_append)
qed

lemma filter_insert_scan:
  assumes "sorted (map uptime q)" and "uptime e = t"
  shows "filter (\<lambda>x. uptime x = k) (insertAt e (scanPosition q t 0) q) =
         filter (\<lambda>x. uptime x = k) (q @ [e])"
proof -
  let ?P = "\<lambda>x. uptime x \<le> t"
  have d: "\<forall>x \<in> set (dropWhile ?P q). t < uptime x"
    using assms(1) by (auto dest: dropWhile_later)
  show ?thesis
  proof (cases "k = t")
    case True
    with d have "filter (\<lambda>x. uptime x = k) (dropWhile ?P q) = []"
      by (auto simp: filter_empty_conv)
    then have "filter (\<lambda>x. uptime x = k) (insertAt e (scanPosition q t 0) q) =
        filter (\<lambda>x. uptime x = k) (takeWhile ?P q) @ [e]"
      using True assms(2) by (simp add: insertAt_scan)
    moreover have "filter (\<lambda>x. uptime x = k) q =
        filter (\<lambda>x. uptime x = k) (takeWhile ?P q) @ filter (\<lambda>x. uptime x = k) (dropWhile ?P q)"
      by (metis filter_append takeWhile_dropWhile_id)
    then have "filter (\<lambda>x. uptime x = k) (q @ [e]) =
        filter (\<lambda>x. uptime x = k) (takeWhile ?P q) @ [e]"
      using \<open>filter (\<lambda>x. uptime x = k) (dropWhile ?P q) = []\<close> True assms(2)
      by simp
    ultimately show ?thesis by simp
  next
    case False
    have "filter (\<lambda>x. uptime x = k) (insertAt e (scanPosition q t 0) q) =
        filter (\<lambda>x. uptime x = k) (takeWhile ?P q) @ filter (\<lambda>x. uptime x = k) (dropWhile ?P q)"
      using False assms(2) by (simp add: insertAt_scan)
    also have "\<dots> = filter (\<lambda>x. uptime x = k) q"
      by (metis filter_append takeWhile_dropWhile_id)
    finally show ?thesis using False assms(2) by simp
  qed
qed

lemma sendMessageAtTime_queue:
  "sendMessageAtTime y s t h m = Inr s' \<Longrightarrow>
     mMessageEnvelopes s' =
       insertAt \<lparr>uptime = t, handler = h, message = m\<rparr>
         (scanPosition (mMessageEnvelopes s) t 0) (mMessageEnvelopes s)"
  by (auto simp: sendMessageAtTime_def Let_def wake_def emit_def
      split: if_splits write_result.splits)

text \<open>A sequence of \<open>sendMessageAtTime\<close> calls, each with its own environment.\<close>

fun sendAll :: "looper \<Rightarrow> (env \<times> MessageEnvelope) list \<Rightarrow> fatal + looper" where
  "sendAll s [] = Inr s"
| "sendAll s (ye # yes) =
     (case sendMessageAtTime (fst ye) s (uptime (snd ye)) (handler (snd ye)) (message (snd ye)) of
        Inl x \<Rightarrow> Inl x
      | Inr s1 \<Rightarrow> sendAll s1 yes)"

definition dispatch :: "MessageEnvelope \<Rightarrow> effect" where
  "dispatch e = HandleMessage (handler e) (message e)"

lemma sendAll_sorted_stable:
  "sorted (map uptime (mMessageEnvelopes s)) \<Longrightarrow> sendAll s yes = Inr s' \<Longrightarrow>
     sorted (map uptime (mMessageEnvelopes s'))
     \<and> (\<forall>k. filter (\<lambda>e. uptime e = k) (mMessageEnvelopes s') =
              filter (\<lambda>e. uptime e = k) (mMessageEnvelopes s @ map snd yes))"
proof (induction yes arbitrary: s)
  case Nil
  then show ?case by simp
next
  case (Cons ye yes)
  from Cons.prems(2) obtain s1 where
    s1: "sendMessageAtTime (fst ye) s (uptime (snd ye)) (handler (snd ye)) (message (snd ye)) = Inr s1"
    and rest: "sendAll s1 yes = Inr s'"
    by (auto split: sum.splits)
  have e: "\<lparr>uptime = uptime (snd ye), handler = handler (snd ye), message = message (snd ye)\<rparr> = snd ye"
    by simp
  from sendMessageAtTime_queue[OF s1] have q1: "mMessageEnvelopes s1 =
      insertAt (snd ye) (scanPosition (mMessageEnvelopes s) (uptime (snd ye)) 0) (mMessageEnvelopes s)"
    by (simp only: e)
  have so: "sorted (map uptime (mMessageEnvelopes s1))"
    unfolding q1 by (rule sorted_insert_scan[OF Cons.prems(1) refl])
  have fi: "\<And>k. filter (\<lambda>e. uptime e = k) (mMessageEnvelopes s1) =
      filter (\<lambda>e. uptime e = k) (mMessageEnvelopes s @ [snd ye])"
    unfolding q1 by (rule filter_insert_scan[OF Cons.prems(1) refl])
  from Cons.IH[OF so rest] fi show ?case by simp
qed

lemma drainMessages_dispatch:
  "drainMessages y k s r = (r', s') \<Longrightarrow>
     \<exists>n. effects s' = effects s @ map dispatch (take n (mMessageEnvelopes s))
        \<and> mMessageEnvelopes s' = drop n (mMessageEnvelopes s)
        \<and> (\<forall>j < n. uptime (mMessageEnvelopes s ! j) \<le> systemTime_drain y (k + j))"
proof (induction y k s r rule: drainMessages.induct)
  case (1 y k s result)
  show ?case
  proof (cases "mMessageEnvelopes s")
    case Nil
    with "1.prems" show ?thesis
      by (subst (asm) drainMessages.simps) (auto intro: exI[of _ 0])
  next
    case (Cons e rest)
    show ?thesis
    proof (cases "uptime e \<le> systemTime_drain y k")
      case False
      with Cons "1.prems" show ?thesis
        by (subst (asm) drainMessages.simps) (auto intro: exI[of _ 0])
    next
      case True
      let ?s1 = "emit (HandleMessage (handler e) (message e))
                  (s\<lparr>mMessageEnvelopes := rest, mSendingMessage := True\<rparr>)
                 \<lparr>mSendingMessage := False\<rparr>"
      from Cons True "1.prems" have "drainMessages y (Suc k) ?s1 POLL_CALLBACK = (r', s')"
        by (subst (asm) drainMessages.simps) simp
      from "1.IH"[OF Cons True this] obtain n where
        n: "effects s' = effects ?s1 @ map dispatch (take n (mMessageEnvelopes ?s1))"
           "mMessageEnvelopes s' = drop n (mMessageEnvelopes ?s1)"
           "\<forall>j < n. uptime (mMessageEnvelopes ?s1 ! j) \<le> systemTime_drain y (Suc k + j)"
        by blast
      have "\<forall>j < Suc n. uptime (mMessageEnvelopes s ! j) \<le> systemTime_drain y (k + j)"
      proof (intro allI impI)
        fix j assume "j < Suc n"
        then show "uptime (mMessageEnvelopes s ! j) \<le> systemTime_drain y (k + j)"
          using n(3) True Cons by (cases j) (auto simp: emit_def)
      qed
      with n(1,2) Cons show ?thesis
        by (intro exI[of _ "Suc n"]) (simp add: emit_def dispatch_def)
    qed
  qed
qed

lemma takeWhile_prefix_holds:
  "j < length (takeWhile P xs) \<Longrightarrow> P (xs ! j)"
  by (metis nth_mem set_takeWhileD takeWhile_nth)

lemma scanPosition_facts:
  "scanPosition q t 0 \<le> length q
   \<and> (\<forall>j < scanPosition q t 0. uptime (q ! j) \<le> t)
   \<and> (scanPosition q t 0 < length q \<longrightarrow> t < uptime (q ! scanPosition q t 0))"
proof (intro conjI allI impI)
  show "scanPosition q t 0 \<le> length q"
    by (simp add: scanPosition_0 length_takeWhile_le)
  fix j assume "j < scanPosition q t 0"
  then show "uptime (q ! j) \<le> t"
    using takeWhile_prefix_holds[of j "\<lambda>e. uptime e \<le> t" q] by (simp add: scanPosition_0)
next
  assume "scanPosition q t 0 < length q"
  then show "t < uptime (q ! scanPosition q t 0)"
    using nth_length_takeWhile[of "\<lambda>e. uptime e \<le> t" q] by (simp add: scanPosition_0)
qed

text \<open>
  Claim C5.  An enqueue puts the envelope at the first position whose deadline is
  strictly later than the new one: every envelope before it is due no later, the one
  after it is due later.  Hence any sequence of enqueues keeps the queue sorted by
  \<open>uptime\<close>, and the envelopes of one deadline stand in the queue in the order of their
  enqueues.  The message loop dispatches a front part of the queue, in queue order.
\<close>

theorem message_queue_sorted_stable:
  "(sendMessageAtTime y s t h m = Inr s1 \<longrightarrow>
      (\<exists>i \<le> length (mMessageEnvelopes s).
         mMessageEnvelopes s1 =
           take i (mMessageEnvelopes s) @ \<lparr>uptime = t, handler = h, message = m\<rparr>
             # drop i (mMessageEnvelopes s)
         \<and> (\<forall>j < i. uptime (mMessageEnvelopes s ! j) \<le> t)
         \<and> (i < length (mMessageEnvelopes s) \<longrightarrow> t < uptime (mMessageEnvelopes s ! i))))
   \<and> (sorted (map uptime (mMessageEnvelopes s)) \<and> sendAll s yes = Inr s2 \<longrightarrow>
        sorted (map uptime (mMessageEnvelopes s2))
        \<and> (\<forall>d. filter (\<lambda>e. uptime e = d) (mMessageEnvelopes s2) =
                 filter (\<lambda>e. uptime e = d) (mMessageEnvelopes s @ map snd yes)))
   \<and> (drainMessages y k s r = (r3, s3) \<longrightarrow>
        (\<exists>n. effects s3 = effects s @ map dispatch (take n (mMessageEnvelopes s))
           \<and> mMessageEnvelopes s3 = drop n (mMessageEnvelopes s)))"
proof -
  have one: "sendMessageAtTime y s t h m = Inr s1 \<longrightarrow>
      (\<exists>i \<le> length (mMessageEnvelopes s).
         mMessageEnvelopes s1 =
           take i (mMessageEnvelopes s) @ \<lparr>uptime = t, handler = h, message = m\<rparr>
             # drop i (mMessageEnvelopes s)
         \<and> (\<forall>j < i. uptime (mMessageEnvelopes s ! j) \<le> t)
         \<and> (i < length (mMessageEnvelopes s) \<longrightarrow> t < uptime (mMessageEnvelopes s ! i)))"
  proof
    assume a: "sendMessageAtTime y s t h m = Inr s1"
    show "\<exists>i \<le> length (mMessageEnvelopes s).
         mMessageEnvelopes s1 =
           take i (mMessageEnvelopes s) @ \<lparr>uptime = t, handler = h, message = m\<rparr>
             # drop i (mMessageEnvelopes s)
         \<and> (\<forall>j < i. uptime (mMessageEnvelopes s ! j) \<le> t)
         \<and> (i < length (mMessageEnvelopes s) \<longrightarrow> t < uptime (mMessageEnvelopes s ! i))"
      using sendMessageAtTime_queue[OF a] scanPosition_facts[of "mMessageEnvelopes s" t]
      by (intro exI[of _ "scanPosition (mMessageEnvelopes s) t 0"]) (simp add: insertAt_def)
  qed
  have two: "sorted (map uptime (mMessageEnvelopes s)) \<and> sendAll s yes = Inr s2 \<longrightarrow>
        sorted (map uptime (mMessageEnvelopes s2))
        \<and> (\<forall>d. filter (\<lambda>e. uptime e = d) (mMessageEnvelopes s2) =
                 filter (\<lambda>e. uptime e = d) (mMessageEnvelopes s @ map snd yes))"
    using sendAll_sorted_stable[of s yes s2] by blast
  have three: "drainMessages y k s r = (r3, s3) \<longrightarrow>
        (\<exists>n. effects s3 = effects s @ map dispatch (take n (mMessageEnvelopes s))
           \<and> mMessageEnvelopes s3 = drop n (mMessageEnvelopes s))"
    using drainMessages_dispatch[of y k s r r3 s3] by blast
  from one two three show ?thesis by (intro conjI)
qed

definition sample_messages :: "MessageEnvelope list" where
  "sample_messages =
     [\<lparr>uptime = 10, handler = 1, message = \<lparr>what = 1\<rparr>\<rparr>,
      \<lparr>uptime = 10, handler = 1, message = \<lparr>what = 2\<rparr>\<rparr>,
      \<lparr>uptime = 5, handler = 2, message = \<lparr>what = 3\<rparr>\<rparr>]"

lemma sample_sendAll:
  "sendAll sample_looper (map (Pair sample_env) sample_messages) =
     Inr (sample_looper
       \<lparr>mMessageEnvelopes := [sample_messages ! 2, sample_messages ! 0, sample_messages ! 1],
        effects := [WakeWrite, WakeWrite]\<rparr>)"
  by (simp add: sample_messages_def sample_looper_def sample_env_def newLooper_def
      sendMessageAtTime_def scanPosition.simps insertAt_def wake_def emit_def)

theorem message_queue_sorted_stable_witness:
  "(\<exists>s2. sendAll sample_looper (map (Pair sample_env) sample_messages) = Inr s2
      \<and> sorted (map uptime (mMessageEnvelopes s2))
      \<and> filter (\<lambda>e. uptime e = 10) (mMessageEnvelopes s2) =
          [sample_messages ! 0, sample_messages ! 1]
      \<and> (\<exists>r3 s3. drainMessages (sample_env\<lparr>systemTime_drain := \<lambda>k. 20\<rparr>) 0 s2 POLL_WAKE = (r3, s3)
           \<and> effects s3 = effects s2 @
               [HandleMessage 2 \<lparr>what = 3\<rparr>, HandleMessage 1 \<lparr>what = 1\<rparr>,
                HandleMessage 1 \<lparr>what = 2\<rparr>]))"
proof -
  let ?s2 = "sample_looper
       \<lparr>mMessageEnvelopes := [sample_messages ! 2, sample_messages ! 0, sample_messages ! 1],
        effects := [WakeWrite, WakeWrite]\<rparr>"
  let ?y = "sample_env\<lparr>systemTime_drain := \<lambda>k. 20\<rparr>"
  have d: "drainMessages ?y 0 ?s2 POLL_WAKE =
      (POLL_CALLBACK, ?s2\<lparr>mMessageEnvelopes := [], mSendingMessage := False,
         effects := [WakeWrite, WakeWrite, HandleMessage 2 \<lparr>what = 3\<rparr>,
           HandleMessage 1 \<lparr>what = 1\<rparr>, HandleMessage 1 \<lparr>what = 2\<rparr>]\<rparr>)"
    by (simp add: drainMessages.simps sample_messages_def sample_env_def emit_def
        sample_looper_def newLooper_def)
  have so: "sorted (map uptime (mMessageEnvelopes sample_looper))"
    by (simp add: sample_looper_def newLooper_def)
  from message_queue_sorted_stable[where s = sample_looper
      and yes = "map (Pair sample_env) sample_messages" and ?s2.0 = ?s2]
    sample_sendAll so
  have "sorted (map uptime (mMessageEnvelopes ?s2))
      \<and> filter (\<lambda>e. uptime e = 10) (mMessageEnvelopes ?s2) =
          filter (\<lambda>e. uptime e = 10) (mMessageEnvelopes sample_looper @ sample_messages)"
    by (simp add: comp_def)
  then show ?thesis
    using sample_sendAll d
    by (simp add: sample_messages_def sample_looper_def newLooper_def)
qed

section \<open>sendMessageAtTime: when the loop is woken\<close>

text \<open>The state \<open>sendMessageAtTime\<close> leaves when it releases the lock: the envelope
  stands in the queue at the scanned position.\<close>

definition enqueued :: "looper \<Rightarrow> nsecs_t \<Rightarrow> handler_ptr \<Rightarrow> Message \<Rightarrow> looper" where
  "enqueued s t h m =
     s\<lparr>mMessageEnvelopes :=
         insertAt \<lparr>uptime = t, handler = h, message = m\<rparr>
           (scanPosition (mMessageEnvelopes s) t 0) (mMessageEnvelopes s)\<rparr>"

lemma wake_observable:
  "wake y s \<noteq> Inr s \<and> (\<forall>s'. wake y s = Inr s' \<longrightarrow> s' = s\<lparr>effects := effects s @ [WakeWrite]\<rparr>)"
proof -
  have "s\<lparr>effects := effects s @ [WakeWrite]\<rparr> \<noteq> s"
  proof
    assume "s\<lparr>effects := effects s @ [WakeWrite]\<rparr> = s"
    then have "effects (s\<lparr>effects := effects s @ [WakeWrite]\<rparr>) = effects s" by simp
    then show False by simp
  qed
  then show ?thesis
    by (auto simp: wake_def emit_def split: write_result.splits)
qed

lemma scanPosition_head:
  "scanPosition q t 0 = 0 \<longleftrightarrow> (q = [] \<or> t < uptime (hd q))"
  by (cases q) (auto simp: scanPosition_0)

text \<open>
  Claim C6.  While \<open>mSendingMessage\<close> is set, \<open>sendMessageAtTime\<close> enqueues and returns
  without the call of \<open>wake\<close>.  Otherwise the call ends with \<open>wake\<close> exactly when the
  envelope was inserted at position 0, which happens exactly when the queue was empty or
  its head was due strictly later; an envelope inserted behind a head that is due no later
  causes no wake.  A call of \<open>wake\<close> is observable: it writes to the wake descriptor or
  aborts.
\<close>

theorem sendMessageAtTime_wake:
  "(mSendingMessage s \<longrightarrow> sendMessageAtTime y s t h m = Inr (enqueued s t h m))
   \<and> (\<not> mSendingMessage s \<and> scanPosition (mMessageEnvelopes s) t 0 = 0 \<longrightarrow>
        sendMessageAtTime y s t h m = wake y (enqueued s t h m))
   \<and> (\<not> mSendingMessage s \<and> scanPosition (mMessageEnvelopes s) t 0 \<noteq> 0 \<longrightarrow>
        sendMessageAtTime y s t h m = Inr (enqueued s t h m))
   \<and> (scanPosition (mMessageEnvelopes s) t 0 = 0 \<longleftrightarrow>
        (mMessageEnvelopes s = [] \<or> t < uptime (hd (mMessageEnvelopes s))))
   \<and> wake y (enqueued s t h m) \<noteq> Inr (enqueued s t h m)
   \<and> (\<forall>s'. wake y (enqueued s t h m) = Inr s' \<longrightarrow>
         s' = (enqueued s t h m)\<lparr>effects := effects s @ [WakeWrite]\<rparr>)"
proof -
  have a: "mSendingMessage s \<longrightarrow> sendMessageAtTime y s t h m = Inr (enqueued s t h m)"
    by (simp add: sendMessageAtTime_def enqueued_def Let_def)
  have b: "\<not> mSendingMessage s \<and> scanPosition (mMessageEnvelopes s) t 0 = 0 \<longrightarrow>
        sendMessageAtTime y s t h m = wake y (enqueued s t h m)"
    by (simp add: sendMessageAtTime_def enqueued_def Let_def)
  have c: "\<not> mSendingMessage s \<and> scanPosition (mMessageEnvelopes s) t 0 \<noteq> 0 \<longrightarrow>
        sendMessageAtTime y s t h m = Inr (enqueued s t h m)"
    by (simp add: sendMessageAtTime_def enqueued_def Let_def)
  have e: "effects (enqueued s t h m) = effects s"
    by (simp add: enqueued_def)
  from a b c scanPosition_head[of "mMessageEnvelopes s" t]
    wake_observable[of y "enqueued s t h m"] e
  show ?thesis by simp
qed

definition sample_message :: MessageEnvelope where
  "sample_message = \<lparr>uptime = 5, handler = 1, message = \<lparr>what = 9\<rparr>\<rparr>"

theorem sendMessageAtTime_wake_witness:
  "sendMessageAtTime sample_env (sample_looper\<lparr>mSendingMessage := True\<rparr>) 5 1 \<lparr>what = 9\<rparr> =
     Inr (sample_looper\<lparr>mSendingMessage := True, mMessageEnvelopes := [sample_message]\<rparr>)
   \<and> sendMessageAtTime sample_env sample_looper 5 1 \<lparr>what = 9\<rparr> =
     Inr (sample_looper\<lparr>mMessageEnvelopes := [sample_message], effects := [WakeWrite]\<rparr>)
   \<and> sendMessageAtTime sample_env (sample_looper\<lparr>mMessageEnvelopes := [sample_message]\<rparr>)
        3600 1 \<lparr>what = 8\<rparr> =
     Inr (sample_looper\<lparr>mMessageEnvelopes :=
            [sample_message, \<lparr>uptime = 3600, handler = 1, message = \<lparr>what = 8\<rparr>\<rparr>]\<rparr>)"
  using sendMessageAtTime_wake[of "sample_looper\<lparr>mSendingMessage := True\<rparr>" sample_env 5 1 "\<lparr>what = 9\<rparr>"]
    sendMessageAtTime_wake[of sample_looper sample_env 5 1 "\<lparr>what = 9\<rparr>"]
    sendMessageAtTime_wake[of "sample_looper\<lparr>mMessageEnvelopes := [sample_message]\<rparr>"
      sample_env 3600 1 "\<lparr>what = 8\<rparr>"]
  by (simp add: sample_looper_def sample_env_def newLooper_def sample_message_def
      enqueued_def scanPosition.simps insertAt_def wake_def emit_def)

section \<open>removeFd and removeSequenceNumberLocked\<close>

text \<open>The answer of the kernel to the delete that \<open>removeSequenceNumberLocked\<close> issues for
  the request \<open>req\<close> registered under \<open>sq\<close>.\<close>

definition deleteResult ::
  "platform \<Rightarrow> env \<Rightarrow> looper \<Rightarrow> SequenceNumber \<Rightarrow> Request \<Rightarrow> sys_result" where
  "deleteResult p y s sq req =
     (case p of
        HAVE_EPOLL \<Rightarrow> epoll_ctl y EPOLL_CTL_DEL (fd req)
      | HAVE_KQUEUE \<Rightarrow> kevent_change y (createKqueueEventsForDelete (mEpollFd s) sq))"

definition wake_ok :: "env \<Rightarrow> bool" where
  "wake_ok y = (wake_write y = Written \<or> wake_write y = WriteFailed EAGAIN)"

lemma removeSeq_absent:
  "mRequests s sq = None \<Longrightarrow> removeSequenceNumberLocked p y s sq = Inr (0, s)"
  by (simp add: removeSequenceNumberLocked_def)

lemma removeSeq_tables:
  "removeSequenceNumberLocked p y s sq = Inr (r, s') \<Longrightarrow> mRequests s sq = Some req \<Longrightarrow>
     mRequests s' = (mRequests s)(sq := None)
     \<and> mSequenceNumberByFd s' = (mSequenceNumberByFd s)(fd req := None)"
  by (auto simp: removeSequenceNumberLocked_def scheduleEpollRebuildLocked_def wake_def
      emit_def Let_def split: sys_result.splits sum.splits if_splits
      platform.splits write_result.splits)

lemma removeSeq_success:
  "mRequests s sq = Some req \<Longrightarrow> deleteResult p y s sq req = Success \<Longrightarrow>
     \<exists>s'. removeSequenceNumberLocked p y s sq = Inr (1, s')
        \<and> mEpollRebuildRequired s' = mEpollRebuildRequired s"
  by (cases p) (auto simp: removeSequenceNumberLocked_def deleteResult_def emit_def Let_def)

text \<open>The kernel call that \<open>removeSequenceNumberLocked\<close> issues for the request \<open>req\<close>
  registered under \<open>sq\<close>: under epoll the delete of the request's descriptor, under kqueue
  the two delete events that \<open>createKqueueEventsForDelete\<close> builds from the kqueue
  descriptor and the sequence number.\<close>

definition deleteEffect :: "platform \<Rightarrow> looper \<Rightarrow> SequenceNumber \<Rightarrow> Request \<Rightarrow> effect" where
  "deleteEffect p s sq req =
     (case p of
        HAVE_EPOLL \<Rightarrow> EpollCtl EPOLL_CTL_DEL (fd req) None
      | HAVE_KQUEUE \<Rightarrow> KeventChange (createKqueueEventsForDelete (mEpollFd s) sq))"

text \<open>The state once both entries are erased and the kernel has been asked.\<close>

definition unregistered :: "platform \<Rightarrow> looper \<Rightarrow> SequenceNumber \<Rightarrow> Request \<Rightarrow> looper" where
  "unregistered p s sq req =
     s\<lparr>mRequests := (mRequests s)(sq := None),
       mSequenceNumberByFd := (mSequenceNumberByFd s)(fd req := None),
       effects := effects s @ [deleteEffect p s sq req]\<rparr>"

text \<open>What the call returns after a failed delete.\<close>

definition deleteFailureResult :: "errno \<Rightarrow> int" where
  "deleteFailureResult e = (if e = EBADF \<or> e = ENOENT then 1 else -1)"

lemma removeSeq_deleted:
  "mRequests s sq = Some req \<Longrightarrow> deleteResult p y s sq req = Success \<Longrightarrow>
     removeSequenceNumberLocked p y s sq = Inr (1, unregistered p s sq req)"
  by (cases p) (auto simp: removeSequenceNumberLocked_def deleteResult_def deleteEffect_def
      unregistered_def emit_def Let_def)

lemma removeSeq_failed_pending:
  "mRequests s sq = Some req \<Longrightarrow> deleteResult p y s sq req = Failure e \<Longrightarrow>
     mEpollRebuildRequired s \<Longrightarrow>
     removeSequenceNumberLocked p y s sq =
       Inr (deleteFailureResult e, unregistered p s sq req)"
  by (cases p) (auto simp: removeSequenceNumberLocked_def deleteResult_def deleteEffect_def
      unregistered_def emit_def Let_def scheduleEpollRebuildLocked_def deleteFailureResult_def)

lemma removeSeq_failed_scheduled:
  "mRequests s sq = Some req \<Longrightarrow> deleteResult p y s sq req = Failure e \<Longrightarrow>
     \<not> mEpollRebuildRequired s \<Longrightarrow> wake_ok y \<Longrightarrow>
     removeSequenceNumberLocked p y s sq =
       Inr (deleteFailureResult e,
            (unregistered p s sq req)
              \<lparr>mEpollRebuildRequired := True,
               effects := effects s @ [deleteEffect p s sq req, WakeWrite]\<rparr>)"
  by (cases p) (auto simp: removeSequenceNumberLocked_def deleteResult_def deleteEffect_def
      unregistered_def emit_def Let_def scheduleEpollRebuildLocked_def deleteFailureResult_def
      wake_def wake_ok_def)

lemma removeSeq_failed_abort:
  "mRequests s sq = Some req \<Longrightarrow> deleteResult p y s sq req = Failure e \<Longrightarrow>
     \<not> mEpollRebuildRequired s \<Longrightarrow> \<not> wake_ok y \<Longrightarrow>
     removeSequenceNumberLocked p y s sq = Inl FatalWakeWrite"
  by (cases p; cases "wake_write y")
     (auto simp: removeSequenceNumberLocked_def deleteResult_def
      emit_def Let_def scheduleEpollRebuildLocked_def wake_def wake_ok_def)

text \<open>
  Claim C3, as amended.  \<open>removeFd\<close> of a descriptor without an index entry, or whose
  index entry points at no request, returns 0 and the state it was given.  For a
  descriptor indexed to a registered request the call erases the request and the index
  entry of the request's descriptor and asks the kernel to delete, whatever the kernel
  then answers.  When the delete succeeds the call returns 1 and does nothing else.
  When the delete fails, a rebuild is scheduled: the rebuild flag is set and, if it was
  not set before, the loop is woken (the call aborts if that write fails other than with
  \<open>EAGAIN\<close>); the call then returns 1 for \<open>EBADF\<close> and \<open>ENOENT\<close> and \<open>-1\<close> for every
  other error.
\<close>

theorem removeFd_result:
  "(mSequenceNumberByFd s f = None \<longrightarrow> removeFd p y s f = Inr (0, s))
   \<and> (mSequenceNumberByFd s f = Some sq \<and> mRequests s sq = None \<longrightarrow>
        removeFd p y s f = Inr (0, s))
   \<and> (mSequenceNumberByFd s f = Some sq \<and> mRequests s sq = Some req \<longrightarrow>
        (deleteResult p y s sq req = Success \<longrightarrow>
           removeFd p y s f = Inr (1, unregistered p s sq req))
        \<and> (deleteResult p y s sq req = Failure e \<and> mEpollRebuildRequired s \<longrightarrow>
             removeFd p y s f = Inr (deleteFailureResult e, unregistered p s sq req))
        \<and> (deleteResult p y s sq req = Failure e \<and> \<not> mEpollRebuildRequired s \<and> wake_ok y \<longrightarrow>
             removeFd p y s f =
               Inr (deleteFailureResult e,
                    (unregistered p s sq req)
                      \<lparr>mEpollRebuildRequired := True,
                       effects := effects s @ [deleteEffect p s sq req, WakeWrite]\<rparr>))
        \<and> (deleteResult p y s sq req = Failure e \<and> \<not> mEpollRebuildRequired s
             \<and> \<not> wake_ok y \<longrightarrow>
             removeFd p y s f = Inl FatalWakeWrite))
   \<and> deleteFailureResult EBADF = 1 \<and> deleteFailureResult ENOENT = 1
   \<and> (e \<noteq> EBADF \<and> e \<noteq> ENOENT \<longrightarrow> deleteFailureResult e = -1)
   \<and> mRequests (unregistered p s sq req) = (mRequests s)(sq := None)
   \<and> mSequenceNumberByFd (unregistered p s sq req) = (mSequenceNumberByFd s)(fd req := None)
   \<and> effects (unregistered p s sq req) = effects s @ [deleteEffect p s sq req]
   \<and> deleteEffect HAVE_EPOLL s sq req = EpollCtl EPOLL_CTL_DEL (fd req) None
   \<and> deleteEffect HAVE_KQUEUE s sq req =
       KeventChange (createKqueueEventsForDelete (mEpollFd s) sq)"
proof -
  have a: "mSequenceNumberByFd s f = None \<longrightarrow> removeFd p y s f = Inr (0, s)"
    by (simp add: removeFd_def)
  have b: "mSequenceNumberByFd s f = Some sq \<and> mRequests s sq = None \<longrightarrow>
        removeFd p y s f = Inr (0, s)"
    by (simp add: removeFd_def removeSeq_absent)
  have c: "mSequenceNumberByFd s f = Some sq \<and> mRequests s sq = Some req \<longrightarrow>
        (deleteResult p y s sq req = Success \<longrightarrow>
           removeFd p y s f = Inr (1, unregistered p s sq req))"
    using removeSeq_deleted[of s sq req p y] by (auto simp: removeFd_def)
  have d: "mSequenceNumberByFd s f = Some sq \<and> mRequests s sq = Some req \<longrightarrow>
        (deleteResult p y s sq req = Failure e \<and> mEpollRebuildRequired s \<longrightarrow>
             removeFd p y s f = Inr (deleteFailureResult e, unregistered p s sq req))"
    using removeSeq_failed_pending[of s sq req p y e] by (auto simp: removeFd_def)
  have e: "mSequenceNumberByFd s f = Some sq \<and> mRequests s sq = Some req \<longrightarrow>
        (deleteResult p y s sq req = Failure e \<and> \<not> mEpollRebuildRequired s \<and> wake_ok y \<longrightarrow>
             removeFd p y s f =
               Inr (deleteFailureResult e,
                    (unregistered p s sq req)
                      \<lparr>mEpollRebuildRequired := True,
                       effects := effects s @ [deleteEffect p s sq req, WakeWrite]\<rparr>))"
    using removeSeq_failed_scheduled[of s sq req p y e] by (auto simp: removeFd_def)
  have f: "mSequenceNumberByFd s f = Some sq \<and> mRequests s sq = Some req \<longrightarrow>
        (deleteResult p y s sq req = Failure e \<and> \<not> mEpollRebuildRequired s
             \<and> \<not> wake_ok y \<longrightarrow>
             removeFd p y s f = Inl FatalWakeWrite)"
    using removeSeq_failed_abort[of s sq req p y e] by (auto simp: removeFd_def)
  have g: "deleteFailureResult EBADF = 1 \<and> deleteFailureResult ENOENT = 1
   \<and> (e \<noteq> EBADF \<and> e \<noteq> ENOENT \<longrightarrow> deleteFailureResult e = -1)"
    by (simp add: deleteFailureResult_def)
  have h: "mRequests (unregistered p s sq req) = (mRequests s)(sq := None)
   \<and> mSequenceNumberByFd (unregistered p s sq req) = (mSequenceNumberByFd s)(fd req := None)
   \<and> effects (unregistered p s sq req) = effects s @ [deleteEffect p s sq req]"
    by (simp add: unregistered_def)
  have i: "deleteEffect HAVE_EPOLL s sq req = EpollCtl EPOLL_CTL_DEL (fd req) None
   \<and> deleteEffect HAVE_KQUEUE s sq req =
       KeventChange (createKqueueEventsForDelete (mEpollFd s) sq)"
    by (simp add: deleteEffect_def)
  from a b c d e f g h i show ?thesis by argo
qed

text \<open>A Looper with one registration: descriptor 5 under sequence number 2.\<close>

definition sample_request :: Request where
  "sample_request = \<lparr>fd = 5, ident = POLL_CALLBACK, events = 1, callback = Some 77, data = 0\<rparr>"

definition registered_looper :: looper where
  "registered_looper =
     sample_looper\<lparr>mNextRequestSeq := 3, mRequests := [2 \<mapsto> sample_request],
                   mSequenceNumberByFd := [5 \<mapsto> 2]\<rparr>"

text \<open>The claim as stated has every removal of a registered descriptor return 1.  The
  kernel below refuses the delete with an error that is neither \<open>EBADF\<close> nor \<open>ENOENT\<close>:
  the registration of descriptor 5 is erased, a rebuild is scheduled, and the call
  returns \<open>-1\<close>.\<close>

theorem removeFd_result_counterexample:
  "mSequenceNumberByFd registered_looper 5 = Some 2
   \<and> mRequests registered_looper 2 = Some sample_request
   \<and> removeFd HAVE_EPOLL (sample_env\<lparr>epoll_ctl := \<lambda>op f. Failure (EOTHER 1)\<rparr>)
        registered_looper 5 =
       Inr (-1, registered_looper\<lparr>mRequests := Map.empty, mSequenceNumberByFd := Map.empty,
                  mEpollRebuildRequired := True,
                  effects := [EpollCtl EPOLL_CTL_DEL 5 None, WakeWrite]\<rparr>)
   \<and> (-1 :: int) \<noteq> 1"
  by (simp add: removeFd_def removeSequenceNumberLocked_def scheduleEpollRebuildLocked_def
      wake_def emit_def Let_def registered_looper_def sample_looper_def newLooper_def
      sample_env_def sample_request_def)

theorem removeFd_result_witness:
  "removeFd HAVE_EPOLL sample_env registered_looper 6 = Inr (0, registered_looper)
   \<and> removeFd HAVE_EPOLL sample_env registered_looper 5 =
       Inr (1, registered_looper\<lparr>mRequests := Map.empty, mSequenceNumberByFd := Map.empty,
                 effects := [EpollCtl EPOLL_CTL_DEL 5 None]\<rparr>)
   \<and> removeFd HAVE_KQUEUE (sample_env\<lparr>kevent_change := \<lambda>ks. Failure EBADF\<rparr>)
        registered_looper 5 =
       Inr (1, registered_looper\<lparr>mRequests := Map.empty, mSequenceNumberByFd := Map.empty,
                 mEpollRebuildRequired := True,
                 effects := [KeventChange (createKqueueEventsForDelete 4 2), WakeWrite]\<rparr>)
   \<and> removeFd HAVE_EPOLL (sample_env\<lparr>epoll_ctl := \<lambda>op f. Failure ENOENT\<rparr>)
        (registered_looper\<lparr>mEpollRebuildRequired := True\<rparr>) 5 =
       Inr (1, registered_looper\<lparr>mRequests := Map.empty, mSequenceNumberByFd := Map.empty,
                 mEpollRebuildRequired := True,
                 effects := [EpollCtl EPOLL_CTL_DEL 5 None]\<rparr>)
   \<and> removeFd HAVE_EPOLL
        (sample_env\<lparr>epoll_ctl := \<lambda>op f. Failure EBADF, wake_write := WriteFailed EBADF\<rparr>)
        registered_looper 5 = Inl FatalWakeWrite"
  using removeFd_result[of registered_looper 6 HAVE_EPOLL sample_env 2 sample_request EBADF]
    removeFd_result[of registered_looper 5 HAVE_EPOLL sample_env 2 sample_request EBADF]
    removeFd_result[of registered_looper 5 HAVE_KQUEUE
      "sample_env\<lparr>kevent_change := \<lambda>ks. Failure EBADF\<rparr>" 2 sample_request EBADF]
    removeFd_result[of "registered_looper\<lparr>mEpollRebuildRequired := True\<rparr>" 5 HAVE_EPOLL
      "sample_env\<lparr>epoll_ctl := \<lambda>op f. Failure ENOENT\<rparr>" 2 sample_request ENOENT]
    removeFd_result[of registered_looper 5 HAVE_EPOLL
      "sample_env\<lparr>epoll_ctl := \<lambda>op f. Failure EBADF, wake_write := WriteFailed EBADF\<rparr>"
      2 sample_request EBADF]
  by (simp add: registered_looper_def sample_looper_def sample_env_def newLooper_def
      sample_request_def deleteResult_def wake_ok_def unregistered_def deleteEffect_def)

section \<open>The fd index and the request table\<close>

text \<open>Invariant 1 of the data model: every index entry points at a request of that
  descriptor, no other request has the descriptor, and every request is indexed.\<close>

definition index_agrees :: "looper \<Rightarrow> bool" where
  "index_agrees s \<longleftrightarrow>
     (\<forall>f sq. mSequenceNumberByFd s f = Some sq \<longrightarrow>
        (\<exists>req. mRequests s sq = Some req \<and> fd req = f))
     \<and> (\<forall>f sq sq1 req. mSequenceNumberByFd s f = Some sq \<and> mRequests s sq1 = Some req
          \<and> fd req = f \<longrightarrow> sq1 = sq)
     \<and> (\<forall>sq req. mRequests s sq = Some req \<longrightarrow> mSequenceNumberByFd s (fd req) = Some sq)"

lemma index_agrees_new: "index_agrees (newLooper a w)"
  by (simp add: index_agrees_def newLooper_def)

lemma index_agrees_erase:
  assumes "index_agrees s" and "mRequests s sq = Some req"
    and "mRequests s' = (mRequests s)(sq := None)"
    and "mSequenceNumberByFd s' = (mSequenceNumberByFd s)(fd req := None)"
  shows "index_agrees s'"
  using assms unfolding index_agrees_def
  by (auto split: if_splits) (metis option.inject)+

lemma index_agrees_insert:
  assumes "index_agrees s" and "mRequests s sq = None" and "mSequenceNumberByFd s f = None"
    and "fd req = f"
    and "mRequests s' = (mRequests s)(sq \<mapsto> req)"
    and "mSequenceNumberByFd s' = (mSequenceNumberByFd s)(f \<mapsto> sq)"
  shows "index_agrees s'"
  using assms unfolding index_agrees_def
  by (auto split: if_splits) (metis option.distinct(1) option.inject)+

lemma index_agrees_same:
  "index_agrees s \<Longrightarrow> mRequests s' = mRequests s \<Longrightarrow>
     mSequenceNumberByFd s' = mSequenceNumberByFd s \<Longrightarrow> index_agrees s'"
  by (simp add: index_agrees_def)

lemma index_agrees_replace:
  assumes inv: "index_agrees s" and old: "mSequenceNumberByFd s f = Some oldSeq"
    and fresh: "mRequests s sq = None" and f: "fd req = f"
    and r: "mRequests s' = ((mRequests s)(oldSeq := None))(sq \<mapsto> req)"
    and i: "mSequenceNumberByFd s' = (mSequenceNumberByFd s)(f \<mapsto> sq)"
  shows "index_agrees s'"
proof -
  from inv old obtain oreq where o: "mRequests s oldSeq = Some oreq" "fd oreq = f"
    by (auto simp: index_agrees_def)
  let ?s1 = "s\<lparr>mRequests := (mRequests s)(oldSeq := None),
               mSequenceNumberByFd := (mSequenceNumberByFd s)(f := None)\<rparr>"
  have 1: "index_agrees ?s1"
    by (rule index_agrees_erase[OF inv o(1)]) (simp_all add: o(2))
  show ?thesis
  proof (rule index_agrees_insert[OF 1 _ _ f])
    show "mRequests ?s1 sq = None" using fresh by simp
    show "mSequenceNumberByFd ?s1 f = None" by simp
    show "mRequests s' = (mRequests ?s1)(sq \<mapsto> req)" using r by simp
    show "mSequenceNumberByFd s' = (mSequenceNumberByFd ?s1)(f \<mapsto> sq)" using i by simp
  qed
qed

lemma fd_newRequest: "fd (newRequest f idt evs cb d) = f"
  by (simp add: newRequest_def)

lemma addFd_index_agrees:
  assumes inv: "index_agrees s" and fresh: "mRequests s (nextSeq s) = None"
    and a: "addFd p y s f idt evs cb d = Inr (r, s')"
  shows "index_agrees s'"
proof -
  from addFd_return[OF a] show ?thesis
  proof
    assume "r = -1"
    with a addFd_failure[of p y s f idt evs cb d s'] inv show ?thesis
      by (auto intro: index_agrees_same)
  next
    assume r1: "r = 1"
    show ?thesis
    proof (cases "mSequenceNumberByFd s f")
      case None
      from addFd_success_new[OF a[unfolded r1] None] fresh
      have "mRequests s' = (mRequests s)(nextSeq s \<mapsto> newRequest f idt evs cb d)"
        and "mSequenceNumberByFd s' = (mSequenceNumberByFd s)(f \<mapsto> nextSeq s)"
        by (simp_all add: emplace_def)
      with index_agrees_insert[OF inv fresh None fd_newRequest] show ?thesis by blast
    next
      case (Some oldSeq)
      from addFd_success_replace[OF a[unfolded r1] Some] fresh
      have "mRequests s' = ((mRequests s)(oldSeq := None))(nextSeq s \<mapsto> newRequest f idt evs cb d)"
        and "mSequenceNumberByFd s' = (mSequenceNumberByFd s)(f \<mapsto> nextSeq s)"
        by (simp_all add: emplace_def)
      with index_agrees_replace[OF inv Some fresh fd_newRequest] show ?thesis by blast
    qed
  qed
qed

lemma removeSeq_index_agrees:
  assumes inv: "index_agrees s" and a: "removeSequenceNumberLocked p y s sq = Inr (r, s')"
  shows "index_agrees s'"
proof (cases "mRequests s sq")
  case None
  with a inv show ?thesis by (simp add: removeSeq_absent)
next
  case (Some req)
  from removeSeq_tables[OF a Some] index_agrees_erase[OF inv Some] show ?thesis by blast
qed

lemma removeFd_index_agrees:
  "index_agrees s \<Longrightarrow> removeFd p y s f = Inr (r, s') \<Longrightarrow> index_agrees s'"
  by (auto simp: removeFd_def split: option.splits dest: removeSeq_index_agrees)

text \<open>The tables through an inner poll: only a callback that returns 0 changes them.\<close>

lemma handleItem_tables:
  "mRequests (handleItem s it) = mRequests s
   \<and> mSequenceNumberByFd (handleItem s it) = mSequenceNumberByFd s"
  by (simp add: handleItem_def awoken_def emit_def Let_def split: option.splits)

lemma foldl_handleItem_tables:
  "mRequests (foldl handleItem s its) = mRequests s
   \<and> mSequenceNumberByFd (foldl handleItem s its) = mSequenceNumberByFd s"
  by (induction its arbitrary: s) (simp_all add: handleItem_tables)

lemma rebuild_tables:
  "rebuildEpollLocked p y s = Inr s' \<Longrightarrow>
     mRequests s' = mRequests s \<and> mSequenceNumberByFd s' = mSequenceNumberByFd s"
  by (auto simp: rebuildEpollLocked_def emit_def Let_def split: if_splits platform.splits)

lemma pollEvents_tables:
  "pollEvents p y s = Inr (r, s') \<Longrightarrow>
     mRequests s' = mRequests s \<and> mSequenceNumberByFd s' = mSequenceNumberByFd s"
  by (auto simp: pollEvents_def foldl_handleItem_tables
      split: if_splits sum.splits wait_result.splits dest!: rebuild_tables)

lemma drainMessages_tables:
  "drainMessages y k s r = (r', s') \<Longrightarrow>
     mRequests s' = mRequests s \<and> mSequenceNumberByFd s' = mSequenceNumberByFd s"
proof (induction y k s r rule: drainMessages.induct)
  case (1 y k s result)
  from "1.prems" show ?case
    by (subst (asm) drainMessages.simps)
       (auto simp: emit_def split: list.splits if_splits dest!: "1.IH")
qed

lemma emit_fields [simp]:
  "mRequests (emit e s) = mRequests s"
  "mSequenceNumberByFd (emit e s) = mSequenceNumberByFd s"
  "mResponses (emit e s) = mResponses s"
  "mResponseIndex (emit e s) = mResponseIndex s"
  "mMessageEnvelopes (emit e s) = mMessageEnvelopes s"
  "mEpollRebuildRequired (emit e s) = mEpollRebuildRequired s"
  "mNextRequestSeq (emit e s) = mNextRequestSeq s"
  "effects (emit e s) = effects s @ [e]"
  by (simp_all add: emit_def)

lemma invokeCallback_cases:
  assumes a: "invokeCallback p y i s = Inr s'"
  shows "(mRequests s' = mRequests s \<and> mSequenceNumberByFd s' = mSequenceNumberByFd s)
     \<or> (\<exists>r s2 e sq. removeSequenceNumberLocked p y (emit e s) sq = Inr (r, s2)
           \<and> mRequests s' = mRequests s2 \<and> mSequenceNumberByFd s' = mSequenceNumberByFd s2)"
proof -
  let ?resp = "mResponses s ! i"
  from a obtain cb where cb: "callback (rsp_request ?resp) = Some cb"
    by (auto simp: invokeCallback_def Let_def split: option.splits)
  let ?e = "HandleEvent cb (fd (rsp_request ?resp)) (rsp_events ?resp) (data (rsp_request ?resp))"
  show ?thesis
  proof (cases "handleEvent y cb (fd (rsp_request ?resp)) (rsp_events ?resp)
                  (data (rsp_request ?resp)) = 0")
    case False
    with a cb show ?thesis by (simp add: invokeCallback_def Let_def) auto
  next
    case True
    with a cb obtain r s2 where
      r: "removeSequenceNumberLocked p y (emit ?e s) (rsp_seq ?resp) = Inr (r, s2)"
      and s': "mRequests s' = mRequests s2" "mSequenceNumberByFd s' = mSequenceNumberByFd s2"
      by (auto simp: invokeCallback_def Let_def split: sum.splits)
    then show ?thesis by blast
  qed
qed

lemma invokeCallback_index_agrees:
  assumes inv: "index_agrees s" and a: "invokeCallback p y i s = Inr s'"
  shows "index_agrees s'"
proof -
  have e: "\<And>e. index_agrees (emit e s)"
    using inv by (simp add: index_agrees_def emit_def)
  from invokeCallback_cases[OF a] show ?thesis
  proof
    assume "mRequests s' = mRequests s \<and> mSequenceNumberByFd s' = mSequenceNumberByFd s"
    with inv show ?thesis by (auto intro: index_agrees_same)
  next
    assume "\<exists>r s2 e sq. removeSequenceNumberLocked p y (emit e s) sq = Inr (r, s2)
           \<and> mRequests s' = mRequests s2 \<and> mSequenceNumberByFd s' = mSequenceNumberByFd s2"
    then obtain r s2 ef sq where
      r: "removeSequenceNumberLocked p y (emit ef s) sq = Inr (r, s2)"
      and t: "mRequests s' = mRequests s2" "mSequenceNumberByFd s' = mSequenceNumberByFd s2"
      by blast
    from removeSeq_index_agrees[OF e r] t show ?thesis by (auto intro: index_agrees_same)
  qed
qed

lemma invokeCallbacks_index_agrees:
  "index_agrees s \<Longrightarrow> invokeCallbacks p y i s r = Inr (r', s') \<Longrightarrow> index_agrees s'"
proof (induction p y i s r rule: invokeCallbacks.induct)
  case (1 p y i s result)
  from "1.prems"(2) "1.prems"(1) show ?case
    by (subst (asm) invokeCallbacks.simps)
       (auto split: if_splits sum.splits dest: "1.IH" invokeCallback_index_agrees)
qed

lemma pollInner_index_agrees:
  assumes inv: "index_agrees s" and a: "pollInner p y s t = Inr (r, s')"
  shows "index_agrees s'"
proof -
  let ?s3 = "kernelWait p (adjustTimeout y s t)
               (s\<lparr>mResponses := [], mResponseIndex := 0, mPolling := True\<rparr>)\<lparr>mPolling := False\<rparr>"
  from a obtain r4 s4 r5 s5 where
    pe: "pollEvents p y ?s3 = Inr (r4, s4)"
    and dm: "drainMessages y 0 (s4\<lparr>mNextMessageUptime := LLONG_MAX\<rparr>) r4 = (r5, s5)"
    and ic: "invokeCallbacks p y 0 s5 r5 = Inr (r, s')"
    by (auto simp: pollInner_def Let_def split: sum.splits prod.splits)
  have 3: "index_agrees ?s3"
    using inv by (simp add: index_agrees_def kernelWait_def emit_def split: platform.splits)
  from pollEvents_tables[OF pe] 3 have 4: "index_agrees s4"
    by (auto intro: index_agrees_same)
  from drainMessages_tables[OF dm] 4 have 5: "index_agrees s5"
    by (simp add: index_agrees_def)
  from invokeCallbacks_index_agrees[OF 5 ic] show ?thesis .
qed

lemma nextIdentifier_tables:
  "nextIdentifier s = (x, s') \<Longrightarrow>
     mRequests s' = mRequests s \<and> mSequenceNumberByFd s' = mSequenceNumberByFd s"
proof (induction s arbitrary: x s' rule: nextIdentifier.induct)
  case (1 s)
  show ?case
  proof (cases "mResponseIndex s < length (mResponses s)")
    case False
    with "1.prems" show ?thesis by (subst (asm) nextIdentifier.simps) simp
  next
    case True
    note lt = this
    show ?thesis
    proof (cases "ident (rsp_request (mResponses s ! mResponseIndex s)) \<ge> 0")
      case True
      with lt "1.prems" show ?thesis
        by (subst (asm) nextIdentifier.simps) (auto simp: Let_def)
    next
      case False
      with lt "1.prems" have
        "nextIdentifier (s\<lparr>mResponseIndex := mResponseIndex s + 1\<rparr>) = (x, s')"
        by (subst (asm) nextIdentifier.simps) (simp add: Let_def)
      from "1.IH"[OF lt refl refl False this] show ?thesis by simp
    qed
  qed
qed

lemma pollOnce_loop_index_agrees:
  "index_agrees s \<Longrightarrow> pollOnce_loop p y t s result = Inr (ret, s') \<Longrightarrow> index_agrees s'"
proof (induction p y t s result rule: pollOnce_loop.induct)
  case (1 p y t s result)
  obtain x s1 where n: "nextIdentifier s = (x, s1)" by (cases "nextIdentifier s")
  from nextIdentifier_tables[OF n] "1.prems"(1) have i1: "index_agrees s1"
    by (auto intro: index_agrees_same)
  show ?case
  proof (cases x)
    case (Some response)
    with n "1.prems"(2) i1 show ?thesis
      by (subst (asm) pollOnce_loop.simps) auto
  next
    case None
    show ?thesis
    proof (cases "result \<noteq> 0")
      case True
      with None n "1.prems"(2) i1 show ?thesis
        by (subst (asm) pollOnce_loop.simps) auto
    next
      case False
      with None n "1.prems"(2) obtain r2 s2 where
        pi: "pollInner p y s1 t = Inr (r2, s2)"
        and rec: "pollOnce_loop p y t s2 r2 = Inr (ret, s')"
        by (subst (asm) pollOnce_loop.simps) (auto split: sum.splits)
      from pollInner_index_agrees[OF i1 pi] have i2: "index_agrees s2" .
      from "1.IH"[OF n[symmetric] None False pi refl i2 rec] show ?thesis .
    qed
  qed
qed


lemma pollOnce_index_agrees:
  "index_agrees s \<Longrightarrow> pollOnce p y s t = Inr (ret, s') \<Longrightarrow> index_agrees s'"
  unfolding pollOnce_def by (rule pollOnce_loop_index_agrees)

lemma Looper_index_agrees:
  "Looper p y a = Inr s \<Longrightarrow> index_agrees s"
  by (auto simp: Looper_def split: if_splits dest!: rebuild_tables
      intro: index_agrees_same[OF index_agrees_new])

lemma index_agrees_registered: "index_agrees registered_looper"
  by (auto simp: index_agrees_def registered_looper_def sample_looper_def newLooper_def
      sample_request_def split: if_splits)

section \<open>What an inner poll does to the outside world\<close>

text \<open>\<open>grows P s s'\<close>: the effects of \<open>s'\<close> are those of \<open>s\<close> followed by new ones, each
  of which satisfies \<open>P\<close>.\<close>

definition grows :: "(effect \<Rightarrow> bool) \<Rightarrow> looper \<Rightarrow> looper \<Rightarrow> bool" where
  "grows P s s' \<longleftrightarrow> (\<exists>new. effects s' = effects s @ new \<and> list_all P new)"

lemma grows_same: "effects s' = effects s \<Longrightarrow> grows P s s'"
  by (simp add: grows_def)

lemma grows_trans: "grows P s s1 \<Longrightarrow> grows P s1 s2 \<Longrightarrow> grows P s s2"
  by (auto simp: grows_def)

lemma grows_emit: "P e \<Longrightarrow> grows P s (emit e s)"
  by (simp add: grows_def)

lemma grows_step: "grows P s s1 \<Longrightarrow> effects s2 = effects s1 @ [e] \<Longrightarrow> P e \<Longrightarrow> grows P s s2"
  by (auto simp: grows_def)

lemma grows_eq: "grows P s s1 \<Longrightarrow> effects s2 = effects s1 \<Longrightarrow> grows P s s2"
  by (auto simp: grows_def)

definition is_wait :: "effect \<Rightarrow> bool" where
  "is_wait e = (case e of EpollWait t \<Rightarrow> True | KeventWait ts \<Rightarrow> True | _ \<Rightarrow> False)"

definition is_dispatch :: "effect \<Rightarrow> bool" where
  "is_dispatch e =
     (case e of HandleMessage h m \<Rightarrow> True | HandleEvent cb f evs d \<Rightarrow> True | _ \<Rightarrow> False)"

text \<open>The effect of the wait on a timeout.\<close>

definition waitEffect :: "platform \<Rightarrow> int \<Rightarrow> effect" where
  "waitEffect p t =
     (case p of
        HAVE_EPOLL \<Rightarrow> EpollWait t
      | HAVE_KQUEUE \<Rightarrow>
          KeventWait (if t < 0 then None else Some (t div 1000, (t mod 1000) * 1000000)))"

lemma kernelWait_effect: "kernelWait p t s = emit (waitEffect p t) s"
  by (simp add: kernelWait_def waitEffect_def split: platform.splits)

text \<open>Effects of the registration calls: kernel set operations and wake writes.\<close>

definition is_ctl :: "effect \<Rightarrow> bool" where
  "is_ctl e =
     (case e of EpollCtl op f ev \<Rightarrow> True | KeventChange ks \<Rightarrow> True | WakeWrite \<Rightarrow> True
      | _ \<Rightarrow> False)"

lemma wake_grows: "wake y s = Inr s' \<Longrightarrow> P WakeWrite \<Longrightarrow> grows P s s'"
  by (auto simp: wake_def split: write_result.splits if_splits intro: grows_emit)

lemma grows_src: "effects s0 = effects s \<Longrightarrow> grows P s0 s' \<Longrightarrow> grows P s s'"
  by (simp add: grows_def)

lemma grows_mono: "grows P s s' \<Longrightarrow> (\<And>e. P e \<Longrightarrow> Q e) \<Longrightarrow> grows Q s s'"
  by (auto simp: grows_def list_all_iff)

lemma scheduleEpollRebuildLocked_grows:
  "scheduleEpollRebuildLocked y s = Inr s' \<Longrightarrow> P WakeWrite \<Longrightarrow> grows P s s'"
  by (auto simp: scheduleEpollRebuildLocked_def wake_def grows_def emit_def
      split: if_splits write_result.splits)

lemma removeSeq_grows:
  "removeSequenceNumberLocked p y s sq = Inr (r, s') \<Longrightarrow> (\<And>e. is_ctl e \<Longrightarrow> P e) \<Longrightarrow>
     grows P s s'"
  by (auto simp: removeSequenceNumberLocked_def scheduleEpollRebuildLocked_def wake_def
      grows_def emit_def is_ctl_def Let_def
      split: option.splits platform.splits sys_result.splits sum.splits if_splits
        write_result.splits)

text \<open>The stretch from the lock to \<open>Done\<close> only rebuilds the kernel set or reads the wake
  descriptor.\<close>

definition is_internal :: "effect \<Rightarrow> bool" where
  "is_internal e =
     (case e of WakeRead \<Rightarrow> True | KernelCreate \<Rightarrow> True | EpollCtl op f ev \<Rightarrow> True
      | EpollRebuildAdd m \<Rightarrow> True | KeventChange ks \<Rightarrow> True | KqueueRebuildAdd m \<Rightarrow> True
      | WakeWrite \<Rightarrow> True | _ \<Rightarrow> False)"

lemma handleItem_grows: "grows is_internal s (handleItem s it)"
  by (auto simp: handleItem_def awoken_def grows_def emit_def is_internal_def Let_def
      split: option.splits)

lemma foldl_handleItem_grows: "grows is_internal s (foldl handleItem s its)"
proof (induction its arbitrary: s)
  case Nil
  show ?case by (simp add: grows_same)
next
  case (Cons it its)
  from grows_trans[OF handleItem_grows Cons.IH] show ?case by simp
qed

lemma rebuild_grows: "rebuildEpollLocked p y s = Inr s' \<Longrightarrow> grows is_internal s s'"
  by (auto simp: rebuildEpollLocked_def grows_def emit_def is_internal_def Let_def
      split: if_splits platform.splits)

lemma pollEvents_grows: "pollEvents p y s = Inr (r, s') \<Longrightarrow> grows is_internal s s'"
  by (auto simp: pollEvents_def split: if_splits sum.splits wait_result.splits
      dest!: rebuild_grows intro: grows_same foldl_handleItem_grows elim: grows_src[rotated])

text \<open>The result of an inner poll after more effects: \<open>POLL_CALLBACK\<close> once a handler or
  a callback has run.\<close>

definition result_after :: "int \<Rightarrow> effect list \<Rightarrow> int" where
  "result_after r new = (if list_ex is_dispatch new then POLL_CALLBACK else r)"

lemma result_after_append:
  "result_after (result_after r a) b = result_after r (a @ b)"
  by (simp add: result_after_def)

lemma result_after_Nil [simp]: "result_after r [] = r"
  by (simp add: result_after_def)

text \<open>\<open>traced P s s' r r'\<close>: from \<open>s\<close> with result \<open>r\<close> to \<open>s'\<close> with result \<open>r'\<close>, by new
  effects that all satisfy \<open>P\<close>.\<close>

definition traced ::
  "(effect \<Rightarrow> bool) \<Rightarrow> looper \<Rightarrow> looper \<Rightarrow> int \<Rightarrow> int \<Rightarrow> bool" where
  "traced P s s' r r' \<longleftrightarrow>
     (\<exists>new. effects s' = effects s @ new \<and> list_all P new \<and> r' = result_after r new)"

lemma traced_refl: "effects s' = effects s \<Longrightarrow> traced P s s' r r"
  by (simp add: traced_def)

lemma traced_trans: "traced P s s1 r r1 \<Longrightarrow> traced P s1 s2 r1 r2 \<Longrightarrow> traced P s s2 r r2"
  unfolding traced_def
proof -
  assume "\<exists>new. effects s1 = effects s @ new \<and> list_all P new \<and> r1 = result_after r new"
    and "\<exists>new. effects s2 = effects s1 @ new \<and> list_all P new \<and> r2 = result_after r1 new"
  then obtain a b where a: "effects s1 = effects s @ a" "list_all P a" "r1 = result_after r a"
    and b: "effects s2 = effects s1 @ b" "list_all P b" "r2 = result_after r1 b"
    by blast
  then have "effects s2 = effects s @ (a @ b) \<and> list_all P (a @ b)
      \<and> r2 = result_after r (a @ b)"
    by (simp add: result_after_append)
  then show "\<exists>new. effects s2 = effects s @ new \<and> list_all P new \<and> r2 = result_after r new"
    by blast
qed

lemma traced_grows: "grows (\<lambda>e. P e \<and> \<not> is_dispatch e) s s' \<Longrightarrow> traced P s s' r r"
  by (auto simp: grows_def traced_def result_after_def list_all_iff list_ex_iff)

definition not_wait :: "effect \<Rightarrow> bool" where
  "not_wait e = (\<not> is_wait e)"

lemma drainMessages_traced:
  "drainMessages y k s r = (r', s') \<Longrightarrow> traced not_wait s s' r r'"
proof (induction y k s r arbitrary: r' s' rule: drainMessages.induct)
  case (1 y k s result)
  show ?case
  proof (cases "mMessageEnvelopes s")
    case Nil
    with "1.prems" show ?thesis
      by (subst (asm) drainMessages.simps) (auto intro: traced_refl)
  next
    case (Cons e rest)
    show ?thesis
    proof (cases "uptime e \<le> systemTime_drain y k")
      case False
      with Cons "1.prems" show ?thesis
        by (subst (asm) drainMessages.simps) (auto intro: traced_refl)
    next
      case True
      let ?s1 = "emit (HandleMessage (handler e) (message e))
                  (s\<lparr>mMessageEnvelopes := rest, mSendingMessage := True\<rparr>)
                 \<lparr>mSendingMessage := False\<rparr>"
      from Cons True "1.prems" have "drainMessages y (Suc k) ?s1 POLL_CALLBACK = (r', s')"
        by (subst (asm) drainMessages.simps) simp
      from "1.IH"[OF Cons True this] have t: "traced not_wait ?s1 s' POLL_CALLBACK r'" .
      have "traced not_wait s ?s1 result POLL_CALLBACK"
        unfolding traced_def
        by (intro exI[of _ "[HandleMessage (handler e) (message e)]"])
           (simp add: emit_def result_after_def is_dispatch_def not_wait_def is_wait_def)
      from traced_trans[OF this t] show ?thesis .
    qed
  qed
qed

lemma invokeCallback_traced:
  "invokeCallback p y i s = Inr s' \<Longrightarrow> traced not_wait s s' r POLL_CALLBACK"
proof -
  assume a: "invokeCallback p y i s = Inr s'"
  let ?resp = "mResponses s ! i"
  from a obtain cb where cb: "callback (rsp_request ?resp) = Some cb"
    by (auto simp: invokeCallback_def Let_def split: option.splits)
  let ?e = "HandleEvent cb (fd (rsp_request ?resp)) (rsp_events ?resp) (data (rsp_request ?resp))"
  have 1: "traced not_wait s (emit ?e s) r POLL_CALLBACK"
    unfolding traced_def
    by (intro exI[of _ "[?e]"])
       (simp add: result_after_def is_dispatch_def not_wait_def is_wait_def)
  have "grows (\<lambda>e. not_wait e \<and> \<not> is_dispatch e) (emit ?e s) s'"
  proof (cases "handleEvent y cb (fd (rsp_request ?resp)) (rsp_events ?resp)
                  (data (rsp_request ?resp)) = 0")
    case False
    with a cb show ?thesis
      by (auto simp: invokeCallback_def Let_def intro!: grows_same)
  next
    case True
    with a cb obtain r2 s2 where
      r: "removeSequenceNumberLocked p y (emit ?e s) (rsp_seq ?resp) = Inr (r2, s2)"
      and s': "effects s' = effects s2"
      by (auto simp: invokeCallback_def Let_def split: sum.splits)
    have "grows (\<lambda>e. not_wait e \<and> \<not> is_dispatch e) (emit ?e s) s2"
      by (rule removeSeq_grows[OF r])
         (auto simp: is_ctl_def not_wait_def is_wait_def is_dispatch_def split: effect.splits)
    with s' show ?thesis by (auto elim: grows_eq)
  qed
  from traced_trans[OF 1 traced_grows[OF this]] show ?thesis .
qed

lemma invokeCallbacks_traced:
  "invokeCallbacks p y i s r = Inr (r', s') \<Longrightarrow> traced not_wait s s' r r'"
proof (induction p y i s r arbitrary: r' s' rule: invokeCallbacks.induct)
  case (1 p y i s result)
  show ?case
  proof (cases "i < length (mResponses s)")
    case False
    with "1.prems" show ?thesis
      by (subst (asm) invokeCallbacks.simps) (auto intro: traced_refl)
  next
    case True
    note lt = this
    show ?thesis
    proof (cases "ident (rsp_request (mResponses s ! i)) = POLL_CALLBACK")
      case False
      with lt "1.prems" have "invokeCallbacks p y (i + 1) s result = Inr (r', s')"
        by (subst (asm) invokeCallbacks.simps) simp
      from "1.IH"(2)[OF lt False this] show ?thesis .
    next
      case True
      with lt "1.prems" obtain s1 where
        one: "invokeCallback p y i s = Inr s1"
        and rec: "invokeCallbacks p y (i + 1) s1 POLL_CALLBACK = Inr (r', s')"
        by (subst (asm) invokeCallbacks.simps) (auto split: sum.splits)
      from traced_trans[OF invokeCallback_traced[OF one] "1.IH"(1)[OF lt True one rec]]
      show ?thesis .
    qed
  qed
qed

section \<open>The result of an inner poll\<close>

text \<open>What the wait alone decides: a pending rebuild comes first, then a failed wait,
  then a wait that returned nothing.\<close>

definition waitOutcome :: "looper \<Rightarrow> env \<Rightarrow> int" where
  "waitOutcome s y =
     (if mEpollRebuildRequired s then POLL_WAKE
      else (case kernel_wait y of
              WaitFailed e \<Rightarrow> (if e = EINTR then POLL_WAKE else POLL_ERROR)
            | WaitReturned eventItems \<Rightarrow>
                (if eventItems = [] then POLL_TIMEOUT else POLL_WAKE)))"

lemma pollEvents_outcome: "pollEvents p y s = Inr (r, s') \<Longrightarrow> r = waitOutcome s y"
  by (auto simp: pollEvents_def waitOutcome_def
      split: if_splits sum.splits wait_result.splits)

lemma pollInner_traced:
  assumes a: "pollInner p y s t = Inr (r, s')"
  shows "\<exists>new. effects s' = effects s @ waitEffect p (adjustTimeout y s t) # new
           \<and> list_all not_wait new \<and> r = result_after (waitOutcome s y) new"
proof -
  let ?s3 = "kernelWait p (adjustTimeout y s t)
               (s\<lparr>mResponses := [], mResponseIndex := 0, mPolling := True\<rparr>)\<lparr>mPolling := False\<rparr>"
  from a obtain r4 s4 r5 s5 where
    pe: "pollEvents p y ?s3 = Inr (r4, s4)"
    and dm: "drainMessages y 0 (s4\<lparr>mNextMessageUptime := LLONG_MAX\<rparr>) r4 = (r5, s5)"
    and ic: "invokeCallbacks p y 0 s5 r5 = Inr (r, s')"
    by (auto simp: pollInner_def Let_def split: sum.splits prod.splits)
  have e3: "effects ?s3 = effects s @ [waitEffect p (adjustTimeout y s t)]"
    by (simp add: kernelWait_effect)
  have r4: "r4 = waitOutcome s y"
    using pollEvents_outcome[OF pe] by (simp add: waitOutcome_def kernelWait_effect emit_def)
  have "grows (\<lambda>e. not_wait e \<and> \<not> is_dispatch e) ?s3 s4"
    by (rule grows_mono[OF pollEvents_grows[OF pe]])
       (auto simp: is_internal_def not_wait_def is_wait_def is_dispatch_def split: effect.splits)
  then have 1: "traced not_wait ?s3 (s4\<lparr>mNextMessageUptime := LLONG_MAX\<rparr>) r4 r4"
    by (auto simp: grows_def traced_def result_after_def list_all_iff list_ex_iff)
  from traced_trans[OF traced_trans[OF 1 drainMessages_traced[OF dm]]
      invokeCallbacks_traced[OF ic]]
  have "traced not_wait ?s3 s' r4 r" .
  then obtain new where "effects s' = effects ?s3 @ new" "list_all not_wait new"
    "r = result_after r4 new"
    unfolding traced_def by blast
  with e3 r4 show ?thesis by simp
qed







text \<open>What \<open>pollOnce\<close> hands back for a response.\<close>

definition returned :: "Response \<Rightarrow> poll_return" where
  "returned rsp =
     (ident (rsp_request rsp), fd (rsp_request rsp), rsp_events rsp, data (rsp_request rsp))"

text \<open>The loop of \<open>pollOnce\<close> unrolled: at most one inner poll per call.\<close>

lemma pollOnce_unfold:
  "pollOnce p y s t =
     (case nextIdentifier s of
        (Some rsp, s1) \<Rightarrow> Inr (returned rsp, s1)
      | (None, s1) \<Rightarrow>
          (case pollInner p y s1 t of
             Inl x \<Rightarrow> Inl x
           | Inr (r, s2) \<Rightarrow>
               (case nextIdentifier s2 of
                  (Some rsp, s3) \<Rightarrow> Inr (returned rsp, s3)
                | (None, s3) \<Rightarrow> Inr ((r, 0, 0, 0), s3))))"
proof -
  obtain x s1 where n: "nextIdentifier s = (x, s1)" by (cases "nextIdentifier s")
  show ?thesis
  proof (cases x)
    case (Some rsp)
    with n show ?thesis
      by (simp add: pollOnce_def pollOnce_loop.simps[of p y t s] returned_def)
  next
    case None
    show ?thesis
    proof (cases "pollInner p y s1 t")
      case (Inl x)
      with n None show ?thesis
        by (simp add: pollOnce_def pollOnce_loop.simps[of p y t s])
    next
      case (Inr rs)
      obtain r s2 where rs: "rs = (r, s2)" by (cases rs)
      from pollInner_nonzero[OF Inr[unfolded rs]] have nz: "r \<noteq> 0" .
      obtain x2 s3 where n2: "nextIdentifier s2 = (x2, s3)" by (cases "nextIdentifier s2")
      have "pollOnce_loop p y t s2 r =
          (case x2 of Some rsp \<Rightarrow> Inr (returned rsp, s3) | None \<Rightarrow> Inr ((r, 0, 0, 0), s3))"
        using n2 nz by (simp add: pollOnce_loop.simps[of p y t s2] returned_def split: option.splits)
      with n None Inr rs n2 show ?thesis
        by (simp add: pollOnce_def pollOnce_loop.simps[of p y t s] split: option.splits)
    qed
  qed
qed



section \<open>The timeout of the wait\<close>

text \<open>The smaller of two timeouts in milliseconds, a negative one standing for no
  timeout at all.\<close>

definition smaller_timeout :: "int \<Rightarrow> int \<Rightarrow> int" where
  "smaller_timeout a b = (if b < 0 then a else if a < 0 then b else min a b)"

lemma nextIdentifier_effects:
  "nextIdentifier s = (x, s') \<Longrightarrow> effects s' = effects s"
proof (induction s arbitrary: x s' rule: nextIdentifier.induct)
  case (1 s)
  show ?case
  proof (cases "mResponseIndex s < length (mResponses s)")
    case False
    with "1.prems" show ?thesis by (subst (asm) nextIdentifier.simps) auto
  next
    case True
    note lt = this
    show ?thesis
    proof (cases "ident (rsp_request (mResponses s ! mResponseIndex s)) \<ge> 0")
      case True
      with lt "1.prems" show ?thesis
        by (subst (asm) nextIdentifier.simps) (auto simp: Let_def)
    next
      case False
      with lt "1.prems" have
        "nextIdentifier (s\<lparr>mResponseIndex := mResponseIndex s + 1\<rparr>) = (x, s')"
        by (subst (asm) nextIdentifier.simps) (simp add: Let_def)
      from "1.IH"[OF lt refl refl False this] show ?thesis by simp
    qed
  qed
qed

lemma adjustTimeout_zero: "adjustTimeout y s 0 = 0"
  by (simp add: adjustTimeout_def)

lemma pollOnce_zero_waits:
  assumes a: "pollOnce p y s 0 = Inr (ret, s')"
  shows "grows (\<lambda>e. is_wait e \<longrightarrow> e = waitEffect p 0) s s'"
proof -
  obtain x s1 where n: "nextIdentifier s = (x, s1)" by (cases "nextIdentifier s")
  note e1 = nextIdentifier_effects[OF n]
  show ?thesis
  proof (cases x)
    case (Some rsp)
    with a n have "s' = s1" by (simp add: pollOnce_unfold)
    with e1 show ?thesis by (simp add: grows_same)
  next
    case None
    with a n obtain r s2 where pi: "pollInner p y s1 0 = Inr (r, s2)"
      by (auto simp: pollOnce_unfold split: sum.splits)
    obtain x2 s3 where n2: "nextIdentifier s2 = (x2, s3)" by (cases "nextIdentifier s2")
    from a n None pi n2 have s': "s' = s3"
      by (auto simp: pollOnce_unfold split: option.splits)
    from pollInner_traced[OF pi] obtain new where
      new: "effects s2 = effects s1 @ waitEffect p (adjustTimeout y s1 0) # new"
      "list_all not_wait new"
      by blast
    have "effects s' = effects s @ waitEffect p 0 # new"
      using new(1) e1 nextIdentifier_effects[OF n2] s' by (simp add: adjustTimeout_zero)
    moreover have "list_all (\<lambda>e. is_wait e \<longrightarrow> e = waitEffect p 0) (waitEffect p 0 # new)"
      using new(2) by (simp add: list_all_iff not_wait_def)
    ultimately show ?thesis unfolding grows_def by blast
  qed
qed

text \<open>A Looper that has recorded a next deadline of 30 ms.\<close>

definition waiting_looper :: looper where
  "waiting_looper =
     sample_looper\<lparr>mNextMessageUptime := 30000000,
       mMessageEnvelopes := [\<lparr>uptime = 30000000, handler = 1, message = \<lparr>what = 9\<rparr>\<rparr>]\<rparr>"

section \<open>pollOnce: replay of identifier responses\<close>

text \<open>The identifier responses still to be handed out: those at or after the response
  index whose identifier is not negative.\<close>

definition pendingIdentifiers :: "looper \<Rightarrow> Response list" where
  "pendingIdentifiers s =
     filter (\<lambda>rsp. 0 \<le> ident (rsp_request rsp)) (drop (mResponseIndex s) (mResponses s))"

lemma nextIdentifier_frame:
  "nextIdentifier s = (x, s') \<Longrightarrow> s' = s\<lparr>mResponseIndex := mResponseIndex s'\<rparr>"
proof (induction s arbitrary: x s' rule: nextIdentifier.induct)
  case (1 s)
  show ?case
  proof (cases "mResponseIndex s < length (mResponses s)")
    case False
    with "1.prems" show ?thesis by (subst (asm) nextIdentifier.simps) auto
  next
    case True
    note lt = this
    show ?thesis
    proof (cases "ident (rsp_request (mResponses s ! mResponseIndex s)) \<ge> 0")
      case True
      with lt "1.prems" show ?thesis
        by (subst (asm) nextIdentifier.simps) (auto simp: Let_def)
    next
      case False
      with lt "1.prems" have
        "nextIdentifier (s\<lparr>mResponseIndex := mResponseIndex s + 1\<rparr>) = (x, s')"
        by (subst (asm) nextIdentifier.simps) (simp add: Let_def)
      from "1.IH"[OF lt refl refl False this] show ?thesis by simp
    qed
  qed
qed

lemma nextIdentifier_pending:
  "nextIdentifier s = (x, s') \<Longrightarrow>
     (case pendingIdentifiers s of
        [] \<Rightarrow> x = None \<and> pendingIdentifiers s' = []
      | rsp # rest \<Rightarrow> x = Some rsp \<and> pendingIdentifiers s' = rest)"
proof (induction s arbitrary: x s' rule: nextIdentifier.induct)
  case (1 s)
  show ?case
  proof (cases "mResponseIndex s < length (mResponses s)")
    case False
    with "1.prems" show ?thesis
      by (subst (asm) nextIdentifier.simps) (auto simp: pendingIdentifiers_def)
  next
    case True
    note lt = this
    then have d: "drop (mResponseIndex s) (mResponses s) =
        mResponses s ! mResponseIndex s # drop (Suc (mResponseIndex s)) (mResponses s)"
      by (simp add: Cons_nth_drop_Suc)
    show ?thesis
    proof (cases "ident (rsp_request (mResponses s ! mResponseIndex s)) \<ge> 0")
      case True
      with lt "1.prems" have "x = Some (mResponses s ! mResponseIndex s)"
        "s' = s\<lparr>mResponseIndex := mResponseIndex s + 1\<rparr>"
        by (subst (asm) nextIdentifier.simps, auto simp: Let_def)+
      with True d show ?thesis by (simp add: pendingIdentifiers_def)
    next
      case False
      with lt "1.prems" have n:
        "nextIdentifier (s\<lparr>mResponseIndex := mResponseIndex s + 1\<rparr>) = (x, s')"
        by (subst (asm) nextIdentifier.simps) (simp add: Let_def)
      have "pendingIdentifiers (s\<lparr>mResponseIndex := mResponseIndex s + 1\<rparr>) =
          pendingIdentifiers s"
        using False d by (simp add: pendingIdentifiers_def)
      with "1.IH"[OF lt refl refl False n] show ?thesis by simp
    qed
  qed
qed

lemma pollInner_ignores_index:
  "pollInner p y (s\<lparr>mResponseIndex := k\<rparr>) t = pollInner p y s t"
  by (simp add: pollInner_def adjustTimeout_def)

lemma pollOnce_replay:
  assumes "pendingIdentifiers s = rsp # rest"
  shows "\<exists>s1. pollOnce p y s t = Inr (returned rsp, s1) \<and> pendingIdentifiers s1 = rest
           \<and> (\<exists>k. s1 = s\<lparr>mResponseIndex := k\<rparr>)"
proof -
  obtain x s1 where n: "nextIdentifier s = (x, s1)" by (cases "nextIdentifier s")
  from nextIdentifier_pending[OF n] assms have "x = Some rsp" "pendingIdentifiers s1 = rest"
    by simp_all
  moreover from nextIdentifier_frame[OF n] have "\<exists>k. s1 = s\<lparr>mResponseIndex := k\<rparr>" by blast
  ultimately show ?thesis using n
    by (intro exI[of _ s1]) (simp add: pollOnce_unfold)
qed

lemma pollOnce_poll:
  assumes e: "pendingIdentifiers s = []" and pi: "pollInner p y s t = Inr (r, s2)"
  shows "\<exists>s3. pollOnce p y s t =
             Inr ((case pendingIdentifiers s2 of [] \<Rightarrow> (r, 0, 0, 0) | rsp # rest \<Rightarrow> returned rsp),
                  s3)
           \<and> pendingIdentifiers s3 = tl (pendingIdentifiers s2)
           \<and> (\<exists>k. s3 = s2\<lparr>mResponseIndex := k\<rparr>)"
proof -
  obtain x s1 where n: "nextIdentifier s = (x, s1)" by (cases "nextIdentifier s")
  from nextIdentifier_pending[OF n] e have x: "x = None" by simp
  from nextIdentifier_frame[OF n] pi have pi1: "pollInner p y s1 t = Inr (r, s2)"
    by (metis pollInner_ignores_index)
  obtain x2 s3 where n2: "nextIdentifier s2 = (x2, s3)" by (cases "nextIdentifier s2")
  from n x pi1 n2 have po: "pollOnce p y s t =
      Inr ((case x2 of Some rsp \<Rightarrow> returned rsp | None \<Rightarrow> (r, 0, 0, 0)), s3)"
    by (simp add: pollOnce_unfold split: option.splits)
  from nextIdentifier_frame[OF n2] have "\<exists>k. s3 = s2\<lparr>mResponseIndex := k\<rparr>" by blast
  with nextIdentifier_pending[OF n2] po show ?thesis
    by (intro exI[of _ s3]) (auto split: list.splits)
qed

text \<open>A run of \<open>pollOnce\<close> calls, each in its own environment, and what they return.\<close>

fun pollOnces ::
  "platform \<Rightarrow> env list \<Rightarrow> looper \<Rightarrow> int \<Rightarrow> fatal + (poll_return list \<times> looper)" where
  "pollOnces p [] s t = Inr ([], s)"
| "pollOnces p (y # ys) s t =
     (case pollOnce p y s t of
        Inl x \<Rightarrow> Inl x
      | Inr (ret, s1) \<Rightarrow>
          (case pollOnces p ys s1 t of
             Inl x \<Rightarrow> Inl x
           | Inr (rets, s2) \<Rightarrow> Inr (ret # rets, s2)))"

lemma pollOnces_replay:
  "length ys \<le> length (pendingIdentifiers s) \<Longrightarrow>
     \<exists>s'. pollOnces p ys s t =
             Inr (map returned (take (length ys) (pendingIdentifiers s)), s')
        \<and> pendingIdentifiers s' = drop (length ys) (pendingIdentifiers s)
        \<and> (\<exists>k. s' = s\<lparr>mResponseIndex := k\<rparr>)"
proof (induction ys arbitrary: s)
  case Nil
  have "s = s\<lparr>mResponseIndex := mResponseIndex s\<rparr>" by simp
  then have "\<exists>k. s = s\<lparr>mResponseIndex := k\<rparr>" by (rule exI)
  then show ?case by simp
next
  case (Cons y ys)
  then obtain rsp rest where pr: "pendingIdentifiers s = rsp # rest"
    by (cases "pendingIdentifiers s") auto
  from pollOnce_replay[OF pr, of p y t] obtain s1 where
    1: "pollOnce p y s t = Inr (returned rsp, s1)" "pendingIdentifiers s1 = rest"
    and "\<exists>k. s1 = s\<lparr>mResponseIndex := k\<rparr>"
    by blast
  then obtain k1 where k1: "s1 = s\<lparr>mResponseIndex := k1\<rparr>" by blast
  from Cons.prems pr 1(2) have "length ys \<le> length (pendingIdentifiers s1)" by simp
  from Cons.IH[OF this] obtain s' where
    2: "pollOnces p ys s1 t = Inr (map returned (take (length ys) (pendingIdentifiers s1)), s')"
    "pendingIdentifiers s' = drop (length ys) (pendingIdentifiers s1)"
    and "\<exists>k. s' = s1\<lparr>mResponseIndex := k\<rparr>"
    by blast
  then obtain k2 where k2: "s' = s1\<lparr>mResponseIndex := k2\<rparr>" by blast
  have "s' = s\<lparr>mResponseIndex := k2\<rparr>"
    unfolding k2 k1 by simp
  then have "\<exists>k. s' = s\<lparr>mResponseIndex := k\<rparr>" by (rule exI)
  with 1 2 pr show ?case
    by (intro exI[of _ s']) simp
qed

section \<open>From the items of the wait to the responses\<close>

text \<open>The response that one item of the wait yields against a request table: none for
  the wake channel, none for a sequence number that is not registered.\<close>

definition response_of :: "(SequenceNumber \<rightharpoonup> Request) \<Rightarrow> event_item \<Rightarrow> Response list" where
  "response_of reqs it =
     (if item_seq it = WAKE_EVENT_FD_SEQ then []
      else (case reqs (item_seq it) of
              None \<Rightarrow> []
            | Some request \<Rightarrow>
                [\<lparr>rsp_seq = item_seq it, rsp_events = item_events it, rsp_request = request\<rparr>]))"

definition translated :: "(SequenceNumber \<rightharpoonup> Request) \<Rightarrow> event_item list \<Rightarrow> Response list" where
  "translated reqs its = concat (map (response_of reqs) its)"

text \<open>The responses an inner poll produces, in the order of the items.\<close>

definition producedResponses :: "looper \<Rightarrow> env \<Rightarrow> Response list" where
  "producedResponses s y =
     (if mEpollRebuildRequired s then []
      else (case kernel_wait y of
              WaitFailed e \<Rightarrow> []
            | WaitReturned its \<Rightarrow> translated (mRequests s) its))"

lemma handleItem_responses:
  "mResponses (handleItem s it) = mResponses s @ response_of (mRequests s) it
   \<and> mResponseIndex (handleItem s it) = mResponseIndex s"
  by (simp add: handleItem_def response_of_def awoken_def emit_def Let_def
      split: option.splits)

lemma foldl_handleItem_responses:
  "mResponses (foldl handleItem s its) = mResponses s @ translated (mRequests s) its
   \<and> mResponseIndex (foldl handleItem s its) = mResponseIndex s"
proof (induction its arbitrary: s)
  case Nil
  show ?case by (simp add: translated_def)
next
  case (Cons it its)
  from Cons.IH[of "handleItem s it"] handleItem_responses[of s it] handleItem_tables[of s it]
  show ?case by (simp add: translated_def)
qed

lemma pollEvents_responses:
  assumes "pollEvents p y s = Inr (r, s')" and "mResponses s = []"
  shows "mResponses s' = producedResponses s y \<and> mResponseIndex s' = mResponseIndex s"
  using assms
  by (auto simp: pollEvents_def producedResponses_def rebuildEpollLocked_def Let_def emit_def
      foldl_handleItem_responses translated_def
      split: if_splits sum.splits wait_result.splits platform.splits)

lemma drainMessages_responses:
  "drainMessages y k s r = (r', s') \<Longrightarrow>
     mResponses s' = mResponses s \<and> mResponseIndex s' = mResponseIndex s"
proof (induction y k s r arbitrary: r' s' rule: drainMessages.induct)
  case (1 y k s result)
  show ?case
  proof (cases "mMessageEnvelopes s")
    case Nil
    with "1.prems" show ?thesis by (subst (asm) drainMessages.simps) auto
  next
    case (Cons e rest)
    show ?thesis
    proof (cases "uptime e \<le> systemTime_drain y k")
      case False
      with Cons "1.prems" show ?thesis by (subst (asm) drainMessages.simps) auto
    next
      case True
      let ?s1 = "emit (HandleMessage (handler e) (message e))
                  (s\<lparr>mMessageEnvelopes := rest, mSendingMessage := True\<rparr>)
                 \<lparr>mSendingMessage := False\<rparr>"
      from Cons True "1.prems" have "drainMessages y (Suc k) ?s1 POLL_CALLBACK = (r', s')"
        by (subst (asm) drainMessages.simps) simp
      from "1.IH"[OF Cons True this] show ?thesis by simp
    qed
  qed
qed

text \<open>A response after its callback has run: the callback reference is cleared.\<close>

definition cleared :: "Response \<Rightarrow> Response" where
  "cleared rsp = rsp\<lparr>rsp_request := (rsp_request rsp)\<lparr>callback := None\<rparr>\<rparr>"

definition settled :: "Response \<Rightarrow> Response \<Rightarrow> bool" where
  "settled a b \<longleftrightarrow> b = a \<or> (ident (rsp_request a) = POLL_CALLBACK \<and> b = cleared a)"

lemma settled_refl: "settled a a"
  by (simp add: settled_def)

lemma settled_trans: "settled a b \<Longrightarrow> settled b c \<Longrightarrow> settled a c"
  by (auto simp: settled_def cleared_def)

lemma removeSeq_index:
  "removeSequenceNumberLocked p y s sq = Inr (r, s') \<Longrightarrow> mResponseIndex s' = mResponseIndex s"
  by (auto simp: removeSequenceNumberLocked_def scheduleEpollRebuildLocked_def wake_def
      emit_def Let_def split: option.splits sys_result.splits sum.splits if_splits
      platform.splits write_result.splits)

lemma invokeCallback_responses:
  assumes a: "invokeCallback p y i s = Inr s'"
  shows "mResponses s' = (mResponses s)[i := cleared (mResponses s ! i)]
         \<and> mResponseIndex s' = mResponseIndex s"
proof -
  let ?resp = "mResponses s ! i"
  from a obtain cb where cb: "callback (rsp_request ?resp) = Some cb"
    by (auto simp: invokeCallback_def Let_def split: option.splits)
  let ?e = "HandleEvent cb (fd (rsp_request ?resp)) (rsp_events ?resp) (data (rsp_request ?resp))"
  show ?thesis
  proof (cases "handleEvent y cb (fd (rsp_request ?resp)) (rsp_events ?resp)
                  (data (rsp_request ?resp)) = 0")
    case False
    with a cb show ?thesis
      by (auto simp: invokeCallback_def Let_def cleared_def)
  next
    case True
    with a cb obtain r2 s2 where
      r: "removeSequenceNumberLocked p y (emit ?e s) (rsp_seq ?resp) = Inr (r2, s2)"
      and s': "s' = s2\<lparr>mResponses := (mResponses s2)[i := cleared ?resp]\<rparr>"
      by (auto simp: invokeCallback_def Let_def cleared_def split: sum.splits)
    from removeSequenceNumberLocked_responses[OF r] removeSeq_index[OF r] s'
    show ?thesis by simp
  qed
qed

lemma settled_update:
  "i < length xs \<Longrightarrow> ident (rsp_request (xs ! i)) = POLL_CALLBACK \<Longrightarrow>
     list_all2 settled xs (xs[i := cleared (xs ! i)])"
  by (auto simp: list_all2_conv_all_nth nth_list_update settled_def)

lemma invokeCallbacks_responses:
  "invokeCallbacks p y i s r = Inr (r', s') \<Longrightarrow>
     list_all2 settled (mResponses s) (mResponses s') \<and> mResponseIndex s' = mResponseIndex s"
proof (induction p y i s r arbitrary: r' s' rule: invokeCallbacks.induct)
  case (1 p y i s result)
  show ?case
  proof (cases "i < length (mResponses s)")
    case False
    with "1.prems" show ?thesis
      by (subst (asm) invokeCallbacks.simps) (auto intro: list_all2_refl settled_refl)
  next
    case True
    note lt = this
    show ?thesis
    proof (cases "ident (rsp_request (mResponses s ! i)) = POLL_CALLBACK")
      case False
      with lt "1.prems" have "invokeCallbacks p y (i + 1) s result = Inr (r', s')"
        by (subst (asm) invokeCallbacks.simps) simp
      from "1.IH"(2)[OF lt False this] show ?thesis .
    next
      case True
      with lt "1.prems" obtain s1 where
        one: "invokeCallback p y i s = Inr s1"
        and rec: "invokeCallbacks p y (i + 1) s1 POLL_CALLBACK = Inr (r', s')"
        by (subst (asm) invokeCallbacks.simps) (auto split: sum.splits)
      from invokeCallback_responses[OF one] settled_update[OF lt True]
      have a: "list_all2 settled (mResponses s) (mResponses s1)"
        "mResponseIndex s1 = mResponseIndex s" by simp_all
      from "1.IH"(1)[OF lt True one rec]
      have b: "list_all2 settled (mResponses s1) (mResponses s')"
        "mResponseIndex s' = mResponseIndex s1" by simp_all
      from list_all2_trans[of settled settled settled, OF _ a(1) b(1)] a(2) b(2)
      show ?thesis by (auto intro: settled_trans)
    qed
  qed
qed

lemma settled_filter:
  "list_all2 settled xs ys \<Longrightarrow>
     filter (\<lambda>rsp. 0 \<le> ident (rsp_request rsp)) ys =
     filter (\<lambda>rsp. 0 \<le> ident (rsp_request rsp)) xs"
  by (induction rule: list_all2_induct)
     (auto simp: settled_def cleared_def POLL_CALLBACK_def)

lemma pollInner_responses:
  assumes a: "pollInner p y s t = Inr (r, s')"
  shows "list_all2 settled (producedResponses s y) (mResponses s') \<and> mResponseIndex s' = 0"
proof -
  let ?s3 = "kernelWait p (adjustTimeout y s t)
               (s\<lparr>mResponses := [], mResponseIndex := 0, mPolling := True\<rparr>)\<lparr>mPolling := False\<rparr>"
  from a obtain r4 s4 r5 s5 where
    pe: "pollEvents p y ?s3 = Inr (r4, s4)"
    and dm: "drainMessages y 0 (s4\<lparr>mNextMessageUptime := LLONG_MAX\<rparr>) r4 = (r5, s5)"
    and ic: "invokeCallbacks p y 0 s5 r5 = Inr (r, s')"
    by (auto simp: pollInner_def Let_def split: sum.splits prod.splits)
  have "mResponses ?s3 = []" by (simp add: kernelWait_effect)
  from pollEvents_responses[OF pe this]
  have 4: "mResponses s4 = producedResponses s y" "mResponseIndex s4 = 0"
    by (simp_all add: producedResponses_def kernelWait_effect cong: wait_result.case_cong)
  from drainMessages_responses[OF dm] 4
  have 5: "mResponses s5 = producedResponses s y" "mResponseIndex s5 = 0" by simp_all
  from invokeCallbacks_responses[OF ic] 5 show ?thesis by simp
qed

lemma pollInner_pending:
  assumes a: "pollInner p y s t = Inr (r, s')"
  shows "pendingIdentifiers s' =
           filter (\<lambda>rsp. 0 \<le> ident (rsp_request rsp)) (producedResponses s y)"
  using pollInner_responses[OF a] settled_filter[of "producedResponses s y" "mResponses s'"]
  by (simp add: pendingIdentifiers_def)

text \<open>
  Claim C1, as amended.  While identifier responses are pending, each \<open>pollOnce\<close> call
  returns the next of them, in their order in the response buffer, with its stored
  \<open>fd\<close>, \<open>events\<close> and \<open>data\<close>, and does nothing to the outside world.  The identifier
  responses an inner poll leaves are those translated from the items of the wait, in the
  order of the items.  A call that finds no pending identifier response runs an inner
  poll; it returns the result code of that poll, with zeros for the out parameters, when
  the poll produced no identifier response, and otherwise the first identifier response,
  the result code of the poll being dropped.
\<close>

theorem pollOnce_replay_order:
  "(length ys \<le> length (pendingIdentifiers s) \<longrightarrow>
      (\<exists>s'. pollOnces p ys s t =
               Inr (map returned (take (length ys) (pendingIdentifiers s)), s')
          \<and> pendingIdentifiers s' = drop (length ys) (pendingIdentifiers s)
          \<and> effects s' = effects s))
   \<and> (pollInner p y s t = Inr (r, s2) \<longrightarrow>
        pendingIdentifiers s2 =
          filter (\<lambda>rsp. 0 \<le> ident (rsp_request rsp)) (producedResponses s y))
   \<and> (pendingIdentifiers s = [] \<and> pollInner p y s t = Inr (r, s2) \<longrightarrow>
        (\<exists>s3. pollOnce p y s t =
                 Inr ((case pendingIdentifiers s2 of
                         [] \<Rightarrow> (r, 0, 0, 0) | rsp # rest \<Rightarrow> returned rsp), s3)
           \<and> pendingIdentifiers s3 = tl (pendingIdentifiers s2)
           \<and> effects s3 = effects s2))
   \<and> returned rsp =
       (ident (rsp_request rsp), fd (rsp_request rsp), rsp_events rsp, data (rsp_request rsp))"
proof -
  have a: "length ys \<le> length (pendingIdentifiers s) \<longrightarrow>
      (\<exists>s'. pollOnces p ys s t =
               Inr (map returned (take (length ys) (pendingIdentifiers s)), s')
          \<and> pendingIdentifiers s' = drop (length ys) (pendingIdentifiers s)
          \<and> effects s' = effects s)"
  proof
    assume "length ys \<le> length (pendingIdentifiers s)"
    from pollOnces_replay[OF this, of p t] obtain s' k where
      "pollOnces p ys s t = Inr (map returned (take (length ys) (pendingIdentifiers s)), s')"
      "pendingIdentifiers s' = drop (length ys) (pendingIdentifiers s)"
      "s' = s\<lparr>mResponseIndex := k\<rparr>"
      by blast
    then show "\<exists>s'. pollOnces p ys s t =
               Inr (map returned (take (length ys) (pendingIdentifiers s)), s')
          \<and> pendingIdentifiers s' = drop (length ys) (pendingIdentifiers s)
          \<and> effects s' = effects s"
      by (intro exI[of _ s']) simp
  qed
  have b: "pollInner p y s t = Inr (r, s2) \<longrightarrow>
        pendingIdentifiers s2 =
          filter (\<lambda>rsp. 0 \<le> ident (rsp_request rsp)) (producedResponses s y)"
    using pollInner_pending[of p y s t r s2] by simp
  have c: "pendingIdentifiers s = [] \<and> pollInner p y s t = Inr (r, s2) \<longrightarrow>
        (\<exists>s3. pollOnce p y s t =
                 Inr ((case pendingIdentifiers s2 of
                         [] \<Rightarrow> (r, 0, 0, 0) | rsp # rest \<Rightarrow> returned rsp), s3)
           \<and> pendingIdentifiers s3 = tl (pendingIdentifiers s2)
           \<and> effects s3 = effects s2)"
  proof
    assume h: "pendingIdentifiers s = [] \<and> pollInner p y s t = Inr (r, s2)"
    from pollOnce_poll[of s p y t r s2] h obtain s3 k where
      "pollOnce p y s t =
         Inr ((case pendingIdentifiers s2 of
                 [] \<Rightarrow> (r, 0, 0, 0) | rsp # rest \<Rightarrow> returned rsp), s3)"
      "pendingIdentifiers s3 = tl (pendingIdentifiers s2)"
      "s3 = s2\<lparr>mResponseIndex := k\<rparr>"
      by blast
    then show "\<exists>s3. pollOnce p y s t =
                 Inr ((case pendingIdentifiers s2 of
                         [] \<Rightarrow> (r, 0, 0, 0) | rsp # rest \<Rightarrow> returned rsp), s3)
           \<and> pendingIdentifiers s3 = tl (pendingIdentifiers s2)
           \<and> effects s3 = effects s2"
      by (intro exI[of _ s3]) simp
  qed
  have d: "returned rsp =
       (ident (rsp_request rsp), fd (rsp_request rsp), rsp_events rsp, data (rsp_request rsp))"
    by (simp add: returned_def)
  from a b c d show ?thesis by argo
qed

text \<open>
  The claim as stated has the result code of an inner poll returned once its identifier
  responses are replayed.  In \<open>pollOnce\<close> the code is a local variable.  Below, descriptor
  5 is registered with identifier 7 and a message is due.  The first call polls: the wait
  reports descriptor 5, the message is dispatched, so the inner poll ends with
  \<open>POLL_CALLBACK\<close>, and the call returns 7.  The second call finds nothing to replay and
  no result: it polls again, and returns the \<open>POLL_TIMEOUT\<close> of that second poll.
  \<open>POLL_CALLBACK\<close> is never returned.
\<close>

definition ident_request :: Request where
  "ident_request = \<lparr>fd = 5, ident = 7, events = 1, callback = None, data = 1\<rparr>"

definition ident_looper :: looper where
  "ident_looper =
     sample_looper\<lparr>mNextRequestSeq := 3, mRequests := [2 \<mapsto> ident_request],
       mSequenceNumberByFd := [5 \<mapsto> 2], mMessageEnvelopes := [sample_message]\<rparr>"

definition ready_env :: env where
  "ready_env =
     sample_env\<lparr>kernel_wait := WaitReturned [EpollItem \<lparr>ep_events = 1, ep_u64 = 2\<rparr>],
       systemTime_drain := \<lambda>k. 7\<rparr>"

definition polled_looper :: looper where
  "polled_looper =
     ident_looper\<lparr>mResponses := [\<lparr>rsp_seq = 2, rsp_events = 1, rsp_request = ident_request\<rparr>],
       mMessageEnvelopes := [],
       effects := [EpollWait (-1), HandleMessage 1 \<lparr>what = 9\<rparr>]\<rparr>"

lemmas sample_poll_defs =
  pollOnce_def pollOnce_loop.simps nextIdentifier.simps pollInner_def Let_def
  adjustTimeout_def kernelWait_def pollEvents_def drainMessages.simps invokeCallbacks.simps
  handleItem_def item_seq_def item_events_def item_is_read_def
  ident_looper_def polled_looper_def ready_env_def ident_request_def sample_message_def
  sample_looper_def newLooper_def sample_env_def emit_def
  POLL_TIMEOUT_def POLL_CALLBACK_def POLL_WAKE_def LLONG_MAX_def WAKE_EVENT_FD_SEQ_def
  EPOLLIN_def EPOLLOUT_def EPOLLERR_def EPOLLHUP_def
  EVENT_INPUT_def EVENT_OUTPUT_def EVENT_ERROR_def EVENT_HANGUP_def

theorem pollOnce_result_counterexample:
  "pollInner HAVE_EPOLL ready_env ident_looper (-1) = Inr (POLL_CALLBACK, polled_looper)
   \<and> pollOnce HAVE_EPOLL ready_env ident_looper (-1) =
       Inr ((7, 5, 1, 1), polled_looper\<lparr>mResponseIndex := 1\<rparr>)
   \<and> pollOnce HAVE_EPOLL sample_env (polled_looper\<lparr>mResponseIndex := 1\<rparr>) (-1) =
       Inr ((POLL_TIMEOUT, 0, 0, 0),
            polled_looper\<lparr>mResponses := [], mResponseIndex := 0,
              effects := [EpollWait (-1), HandleMessage 1 \<lparr>what = 9\<rparr>, EpollWait (-1)]\<rparr>)
   \<and> POLL_TIMEOUT \<noteq> POLL_CALLBACK"
  by (simp add: sample_poll_defs)


text \<open>Three responses in the buffer, the second one of a callback registration.\<close>

definition replay_looper :: looper where
  "replay_looper =
     polled_looper\<lparr>mResponses :=
       [\<lparr>rsp_seq = 2, rsp_events = 1, rsp_request = ident_request\<rparr>,
        \<lparr>rsp_seq = 3, rsp_events = 1, rsp_request = sample_request\<lparr>callback := None\<rparr>\<rparr>,
        \<lparr>rsp_seq = 4, rsp_events = 2,
         rsp_request = \<lparr>fd = 6, ident = 8, events = 2, callback = None, data = 2\<rparr>\<rparr>]\<rparr>"

theorem pollOnce_replay_order_witness:
  "pollOnces HAVE_EPOLL [sample_env, sample_env] replay_looper (-1) =
     Inr ([(7, 5, 1, 1), (8, 6, 2, 2)], replay_looper\<lparr>mResponseIndex := 3\<rparr>)
   \<and> pendingIdentifiers polled_looper =
       [\<lparr>rsp_seq = 2, rsp_events = 1, rsp_request = ident_request\<rparr>]
   \<and> pollOnce HAVE_EPOLL sample_env (replay_looper\<lparr>mResponseIndex := 3\<rparr>) (-1) =
       Inr ((POLL_TIMEOUT, 0, 0, 0),
            replay_looper\<lparr>mResponses := [], mResponseIndex := 0,
              effects := [EpollWait (-1), HandleMessage 1 \<lparr>what = 9\<rparr>, EpollWait (-1)]\<rparr>)"
proof -
  have pend: "pendingIdentifiers replay_looper =
      [\<lparr>rsp_seq = 2, rsp_events = 1, rsp_request = ident_request\<rparr>,
       \<lparr>rsp_seq = 4, rsp_events = 2,
         rsp_request = \<lparr>fd = 6, ident = 8, events = 2, callback = None, data = 2\<rparr>\<rparr>]"
    by (simp add: pendingIdentifiers_def replay_looper_def polled_looper_def ident_looper_def
        sample_looper_def newLooper_def ident_request_def sample_request_def POLL_CALLBACK_def)
  have run: "pollOnces HAVE_EPOLL [sample_env, sample_env] replay_looper (-1) =
     Inr ([(7, 5, 1, 1), (8, 6, 2, 2)], replay_looper\<lparr>mResponseIndex := 3\<rparr>)"
    by (simp add: replay_looper_def sample_request_def sample_poll_defs)
  have inner: "pollInner HAVE_EPOLL ready_env ident_looper (-1) = Inr (POLL_CALLBACK, polled_looper)"
    by (simp add: sample_poll_defs)
  have prod: "producedResponses ident_looper ready_env =
      [\<lparr>rsp_seq = 2, rsp_events = 1, rsp_request = ident_request\<rparr>]"
    by (simp add: producedResponses_def translated_def response_of_def sample_poll_defs)
  have e3: "pendingIdentifiers (replay_looper\<lparr>mResponseIndex := 3\<rparr>) = []"
    by (simp add: pendingIdentifiers_def replay_looper_def)
  have inner3: "pollInner HAVE_EPOLL sample_env (replay_looper\<lparr>mResponseIndex := 3\<rparr>) (-1) =
      Inr (POLL_TIMEOUT, replay_looper\<lparr>mResponses := [], mResponseIndex := 0,
              effects := [EpollWait (-1), HandleMessage 1 \<lparr>what = 9\<rparr>, EpollWait (-1)]\<rparr>)"
    by (simp add: replay_looper_def sample_request_def sample_poll_defs)
  have last: "pollOnce HAVE_EPOLL sample_env (replay_looper\<lparr>mResponseIndex := 3\<rparr>) (-1) =
       Inr ((POLL_TIMEOUT, 0, 0, 0),
            replay_looper\<lparr>mResponses := [], mResponseIndex := 0,
              effects := [EpollWait (-1), HandleMessage 1 \<lparr>what = 9\<rparr>, EpollWait (-1)]\<rparr>)"
    by (simp add: replay_looper_def sample_request_def sample_poll_defs)
  from pollOnce_replay_order[of "[sample_env, sample_env]" replay_looper HAVE_EPOLL "-1"
      ready_env POLL_CALLBACK polled_looper]
    pollOnce_replay_order[of "[]" ident_looper HAVE_EPOLL "-1"
      ready_env POLL_CALLBACK polled_looper]
    pend inner prod
  have "pendingIdentifiers polled_looper =
       [\<lparr>rsp_seq = 2, rsp_events = 1, rsp_request = ident_request\<rparr>]"
    by (simp add: ident_request_def)
  with run last show ?thesis by simp
qed

section \<open>The wait of pollOnce\<close>

text \<open>The deadline at the head of the queue, \<open>LLONG_MAX\<close> for an empty queue.\<close>

definition headDeadline :: "looper \<Rightarrow> nsecs_t" where
  "headDeadline s = (case mMessageEnvelopes s of [] \<Rightarrow> LLONG_MAX | e # q \<Rightarrow> uptime e)"

lemma sendMessageAtTime_next:
  "sendMessageAtTime y s t h m = Inr s' \<Longrightarrow> mNextMessageUptime s' = mNextMessageUptime s"
  by (auto simp: sendMessageAtTime_def Let_def wake_def emit_def
      split: if_splits write_result.splits)

lemma drainMessages_next:
  "drainMessages y k s r = (r', s') \<Longrightarrow> mNextMessageUptime s = LLONG_MAX \<Longrightarrow>
     mNextMessageUptime s' = headDeadline s'"
proof (induction y k s r arbitrary: r' s' rule: drainMessages.induct)
  case (1 y k s result)
  show ?case
  proof (cases "mMessageEnvelopes s")
    case Nil
    with "1.prems" show ?thesis
      by (subst (asm) drainMessages.simps) (auto simp: headDeadline_def)
  next
    case (Cons e rest)
    show ?thesis
    proof (cases "uptime e \<le> systemTime_drain y k")
      case False
      with Cons "1.prems" show ?thesis
        by (subst (asm) drainMessages.simps) (auto simp: headDeadline_def)
    next
      case True
      let ?s1 = "emit (HandleMessage (handler e) (message e))
                  (s\<lparr>mMessageEnvelopes := rest, mSendingMessage := True\<rparr>)
                 \<lparr>mSendingMessage := False\<rparr>"
      from Cons True "1.prems" have "drainMessages y (Suc k) ?s1 POLL_CALLBACK = (r', s')"
        by (subst (asm) drainMessages.simps) simp
      moreover have "mNextMessageUptime ?s1 = LLONG_MAX"
        using "1.prems"(2) by (simp add: emit_def)
      ultimately show ?thesis by (rule "1.IH"[OF Cons True])
    qed
  qed
qed

lemma removeSeq_queue:
  "removeSequenceNumberLocked p y s sq = Inr (r, s') \<Longrightarrow>
     mMessageEnvelopes s' = mMessageEnvelopes s \<and> mNextMessageUptime s' = mNextMessageUptime s"
  by (auto simp: removeSequenceNumberLocked_def scheduleEpollRebuildLocked_def wake_def
      emit_def Let_def split: option.splits sys_result.splits sum.splits if_splits
      platform.splits write_result.splits)

lemma invokeCallback_queue:
  assumes a: "invokeCallback p y i s = Inr s'"
  shows "mMessageEnvelopes s' = mMessageEnvelopes s
         \<and> mNextMessageUptime s' = mNextMessageUptime s"
proof -
  let ?resp = "mResponses s ! i"
  from a obtain cb where cb: "callback (rsp_request ?resp) = Some cb"
    by (auto simp: invokeCallback_def Let_def split: option.splits)
  let ?e = "HandleEvent cb (fd (rsp_request ?resp)) (rsp_events ?resp) (data (rsp_request ?resp))"
  show ?thesis
  proof (cases "handleEvent y cb (fd (rsp_request ?resp)) (rsp_events ?resp)
                  (data (rsp_request ?resp)) = 0")
    case False
    with a cb show ?thesis
      by (auto simp: invokeCallback_def Let_def emit_def)
  next
    case True
    with a cb obtain r2 s2 where
      r: "removeSequenceNumberLocked p y (emit ?e s) (rsp_seq ?resp) = Inr (r2, s2)"
      and s': "mMessageEnvelopes s' = mMessageEnvelopes s2"
              "mNextMessageUptime s' = mNextMessageUptime s2"
      by (auto simp: invokeCallback_def Let_def split: sum.splits)
    from removeSeq_queue[OF r] s' show ?thesis by (simp add: emit_def)
  qed
qed

lemma invokeCallbacks_queue:
  "invokeCallbacks p y i s r = Inr (r', s') \<Longrightarrow>
     mMessageEnvelopes s' = mMessageEnvelopes s \<and> mNextMessageUptime s' = mNextMessageUptime s"
proof (induction p y i s r arbitrary: r' s' rule: invokeCallbacks.induct)
  case (1 p y i s result)
  show ?case
  proof (cases "i < length (mResponses s)")
    case False
    with "1.prems" show ?thesis
      by (subst (asm) invokeCallbacks.simps) auto
  next
    case True
    note lt = this
    show ?thesis
    proof (cases "ident (rsp_request (mResponses s ! i)) = POLL_CALLBACK")
      case False
      with lt "1.prems" have "invokeCallbacks p y (i + 1) s result = Inr (r', s')"
        by (subst (asm) invokeCallbacks.simps) simp
      from "1.IH"(2)[OF lt False this] show ?thesis .
    next
      case True
      with lt "1.prems" obtain s1 where
        one: "invokeCallback p y i s = Inr s1"
        and rec: "invokeCallbacks p y (i + 1) s1 POLL_CALLBACK = Inr (r', s')"
        by (subst (asm) invokeCallbacks.simps) (auto split: sum.splits)
      from "1.IH"(1)[OF lt True one rec] invokeCallback_queue[OF one] show ?thesis by simp
    qed
  qed
qed

text \<open>When an inner poll returns, \<open>mNextMessageUptime\<close> is the deadline at the head of
  the queue it leaves.\<close>

lemma pollInner_next:
  assumes a: "pollInner p y s t = Inr (r, s')"
  shows "mNextMessageUptime s' = headDeadline s'"
proof -
  let ?s3 = "kernelWait p (adjustTimeout y s t)
               (s\<lparr>mResponses := [], mResponseIndex := 0, mPolling := True\<rparr>)\<lparr>mPolling := False\<rparr>"
  from a obtain r4 s4 r5 s5 where
    pe: "pollEvents p y ?s3 = Inr (r4, s4)"
    and dm: "drainMessages y 0 (s4\<lparr>mNextMessageUptime := LLONG_MAX\<rparr>) r4 = (r5, s5)"
    and ic: "invokeCallbacks p y 0 s5 r5 = Inr (r, s')"
    by (auto simp: pollInner_def Let_def split: sum.splits prod.splits)
  from drainMessages_next[OF dm] have "mNextMessageUptime s5 = headDeadline s5" by simp
  with invokeCallbacks_queue[OF ic] show ?thesis by (simp add: headDeadline_def)
qed

lemma adjustTimeout_index:
  "adjustTimeout y (s\<lparr>mResponseIndex := k\<rparr>) t = adjustTimeout y s t"
  by (simp add: adjustTimeout_def)

text \<open>A call of \<open>pollOnce\<close> that has nothing to replay waits once, first of all, with the
  adjusted timeout.\<close>

lemma pollOnce_waits:
  assumes e: "pendingIdentifiers s = []" and a: "pollOnce p y s t = Inr (ret, s')"
  shows "\<exists>new. effects s' = effects s @ waitEffect p (adjustTimeout y s t) # new
           \<and> list_all (\<lambda>e. \<not> is_wait e) new"
proof -
  obtain x s1 where n: "nextIdentifier s = (x, s1)" by (cases "nextIdentifier s")
  from nextIdentifier_pending[OF n] e have x: "x = None" by simp
  from nextIdentifier_frame[OF n] obtain k where k: "s1 = s\<lparr>mResponseIndex := k\<rparr>" by blast
  from a n x obtain r s2 where pi1: "pollInner p y s1 t = Inr (r, s2)"
    by (auto simp: pollOnce_unfold split: sum.splits)
  obtain x2 s3 where n2: "nextIdentifier s2 = (x2, s3)" by (cases "nextIdentifier s2")
  from a n x pi1 n2 have s': "s' = s3"
    by (auto simp: pollOnce_unfold split: option.splits)
  from pollInner_traced[OF pi1] obtain new where
    new: "effects s2 = effects s1 @ waitEffect p (adjustTimeout y s1 t) # new"
    "list_all not_wait new"
    by blast
  have "effects s' = effects s @ waitEffect p (adjustTimeout y s t) # new"
    using new(1) nextIdentifier_effects[OF n2] s' k by (simp add: adjustTimeout_index)
  moreover have "list_all (\<lambda>e. \<not> is_wait e) new"
    using new(2) by (simp add: list_all_iff not_wait_def)
  ultimately show ?thesis by blast
qed

lemma pollOnce_replay_silent:
  assumes "pendingIdentifiers s \<noteq> []" and a: "pollOnce p y s t = Inr (ret, s')"
  shows "effects s' = effects s"
proof -
  from assms(1) obtain rsp rest where pr: "pendingIdentifiers s = rsp # rest"
    by (cases "pendingIdentifiers s") auto
  from pollOnce_replay[OF pr, of p y t] a obtain k where "s' = s\<lparr>mResponseIndex := k\<rparr>"
    by auto
  then show ?thesis by simp
qed

text \<open>
  Claim C9, as amended.  A call of \<open>pollOnce\<close> that has an identifier response to replay
  does not wait.  Otherwise it waits once, before anything else it does to the outside
  world, and the timeout of that wait is the caller's when it is 0 or when
  \<open>mNextMessageUptime\<close> is \<open>LLONG_MAX\<close>, and else the smaller of the caller's timeout and
  the delay to \<open>mNextMessageUptime\<close> that \<open>toMillisecondTimeoutDelay\<close> computes, negative
  values standing for no timeout.  \<open>mNextMessageUptime\<close> is the deadline at the head of
  the queue as the message loop of the last inner poll left it (\<open>LLONG_MAX\<close> for an
  empty queue);
  \<open>sendMessageAtTime\<close> does not write it, so a message enqueued since does not shorten
  the wait.  Every wait of \<open>pollOnce(0)\<close> has timeout zero: under epoll the argument 0,
  under kqueue a zero \<open>timespec\<close>; a negative timeout is a null \<open>timespec\<close>.
\<close>

theorem wait_timeout:
  "(pendingIdentifiers s \<noteq> [] \<longrightarrow>
      (\<forall>ret s'. pollOnce p y s t = Inr (ret, s') \<longrightarrow> effects s' = effects s))
   \<and> (pendingIdentifiers s = [] \<longrightarrow>
        (\<forall>ret s'. pollOnce p y s t = Inr (ret, s') \<longrightarrow>
           (\<exists>new. effects s' = effects s @ waitEffect p (adjustTimeout y s t) # new
              \<and> list_all (\<lambda>e. \<not> is_wait e) new)))
   \<and> adjustTimeout y s 0 = 0
   \<and> (mNextMessageUptime s = LLONG_MAX \<longrightarrow> adjustTimeout y s t = t)
   \<and> (t \<noteq> 0 \<and> mNextMessageUptime s \<noteq> LLONG_MAX \<longrightarrow>
        adjustTimeout y s t =
          smaller_timeout t
            (toMillisecondTimeoutDelay y (systemTime_entry y) (mNextMessageUptime s)))
   \<and> (\<forall>r s'. pollInner p y s t = Inr (r, s') \<longrightarrow> mNextMessageUptime s' = headDeadline s')
   \<and> (\<forall>u h m s'. sendMessageAtTime y s u h m = Inr s' \<longrightarrow>
         mNextMessageUptime s' = mNextMessageUptime s)
   \<and> (\<forall>ret s'. pollOnce p y s 0 = Inr (ret, s') \<longrightarrow>
        grows (\<lambda>e. is_wait e \<longrightarrow> e = waitEffect p 0) s s')
   \<and> waitEffect HAVE_EPOLL t = EpollWait t
   \<and> waitEffect HAVE_KQUEUE 0 = KeventWait (Some (0, 0))
   \<and> (t < 0 \<longrightarrow> waitEffect HAVE_KQUEUE t = KeventWait None)"
proof -
  have a0: "pendingIdentifiers s \<noteq> [] \<longrightarrow>
      (\<forall>ret s'. pollOnce p y s t = Inr (ret, s') \<longrightarrow> effects s' = effects s)"
    using pollOnce_replay_silent[of s p y t] by blast
  have a1: "pendingIdentifiers s = [] \<longrightarrow>
        (\<forall>ret s'. pollOnce p y s t = Inr (ret, s') \<longrightarrow>
           (\<exists>new. effects s' = effects s @ waitEffect p (adjustTimeout y s t) # new
              \<and> list_all (\<lambda>e. \<not> is_wait e) new))"
    using pollOnce_waits[of s p y t] by blast
  have a: "adjustTimeout y s 0 = 0" by (rule adjustTimeout_zero)
  have b: "mNextMessageUptime s = LLONG_MAX \<longrightarrow> adjustTimeout y s t = t"
    by (simp add: adjustTimeout_def)
  have c: "t \<noteq> 0 \<and> mNextMessageUptime s \<noteq> LLONG_MAX \<longrightarrow>
        adjustTimeout y s t =
          smaller_timeout t
            (toMillisecondTimeoutDelay y (systemTime_entry y) (mNextMessageUptime s))"
    by (auto simp: adjustTimeout_def smaller_timeout_def Let_def)
  have d: "\<forall>r s'. pollInner p y s t = Inr (r, s') \<longrightarrow> mNextMessageUptime s' = headDeadline s'"
    using pollInner_next[of p y s t] by blast
  have d2: "\<forall>u h m s'. sendMessageAtTime y s u h m = Inr s' \<longrightarrow>
         mNextMessageUptime s' = mNextMessageUptime s"
    using sendMessageAtTime_next[of y s] by blast
  have e: "\<forall>ret s'. pollOnce p y s 0 = Inr (ret, s') \<longrightarrow>
        grows (\<lambda>e. is_wait e \<longrightarrow> e = waitEffect p 0) s s'"
    using pollOnce_zero_waits[of p y s] by blast
  have f: "waitEffect HAVE_EPOLL t = EpollWait t
   \<and> waitEffect HAVE_KQUEUE 0 = KeventWait (Some (0, 0))
   \<and> (t < 0 \<longrightarrow> waitEffect HAVE_KQUEUE t = KeventWait None)"
    by (simp add: waitEffect_def)
  from a0 a1 a b c d d2 e f show ?thesis by argo
qed

text \<open>
  The claim as stated has the wait shortened whenever a message is pending.  Below, a
  message due at 30 ms is sent to a fresh Looper at time 0, which wakes the loop.  The
  next \<open>pollOnce(100)\<close> passes the caller's 100 ms to the kernel, although the head of
  the queue is due in 30 ms: \<open>mNextMessageUptime\<close> is still \<open>LLONG_MAX\<close>.  The wait
  returns at once with the wake event, and the poll records the deadline; the
  \<open>pollOnce(100)\<close> after it waits 30 ms.
\<close>

definition queued_looper :: looper where
  "queued_looper =
     sample_looper\<lparr>mMessageEnvelopes := [\<lparr>uptime = 30000000, handler = 1, message = \<lparr>what = 9\<rparr>\<rparr>],
       effects := [WakeWrite]\<rparr>"

definition woken_env :: env where
  "woken_env = sample_env\<lparr>kernel_wait := WaitReturned [EpollItem \<lparr>ep_events = 1, ep_u64 = 1\<rparr>]\<rparr>"

theorem wait_timeout_counterexample:
  "sendMessageAtTime sample_env sample_looper 30000000 1 \<lparr>what = 9\<rparr> = Inr queued_looper
   \<and> mMessageEnvelopes queued_looper =
       [\<lparr>uptime = 30000000, handler = 1, message = \<lparr>what = 9\<rparr>\<rparr>]
   \<and> toMillisecondTimeoutDelay woken_env (systemTime_entry woken_env) 30000000 = 30
   \<and> smaller_timeout 100 30 = 30
   \<and> pollOnce HAVE_EPOLL woken_env queued_looper 100 =
       Inr ((POLL_WAKE, 0, 0, 0),
            queued_looper\<lparr>mNextMessageUptime := 30000000,
              effects := [WakeWrite, EpollWait 100, WakeRead]\<rparr>)
   \<and> pollOnce HAVE_EPOLL sample_env
        (queued_looper\<lparr>mNextMessageUptime := 30000000,
              effects := [WakeWrite, EpollWait 100, WakeRead]\<rparr>) 100 =
       Inr ((POLL_TIMEOUT, 0, 0, 0),
            queued_looper\<lparr>mNextMessageUptime := 30000000,
              effects := [WakeWrite, EpollWait 100, WakeRead, EpollWait 30]\<rparr>)"
  by (simp add: queued_looper_def woken_env_def sendMessageAtTime_def scanPosition.simps
      insertAt_def wake_def smaller_timeout_def awoken_def sample_poll_defs)

text \<open>The Looper with a recorded deadline of 30 ms, seen at time 0: a caller timeout of
  100 ms is cut to 30, one of 10 ms is kept, an infinite one becomes 30, and 0 stays 0.\<close>

theorem wait_timeout_witness:
  "pollOnce HAVE_EPOLL sample_env waiting_looper 100 =
       Inr ((POLL_TIMEOUT, 0, 0, 0), waiting_looper\<lparr>effects := [EpollWait 30]\<rparr>)
   \<and> pollOnce HAVE_EPOLL sample_env waiting_looper 10 =
       Inr ((POLL_TIMEOUT, 0, 0, 0), waiting_looper\<lparr>effects := [EpollWait 10]\<rparr>)
   \<and> pollOnce HAVE_EPOLL sample_env waiting_looper (-1) =
       Inr ((POLL_TIMEOUT, 0, 0, 0), waiting_looper\<lparr>effects := [EpollWait 30]\<rparr>)
   \<and> pollOnce HAVE_EPOLL sample_env sample_looper 100 =
       Inr ((POLL_TIMEOUT, 0, 0, 0), sample_looper\<lparr>effects := [EpollWait 100]\<rparr>)
   \<and> pollOnce HAVE_KQUEUE sample_env waiting_looper 0 =
       Inr ((POLL_TIMEOUT, 0, 0, 0), waiting_looper\<lparr>effects := [KeventWait (Some (0, 0))]\<rparr>)
   \<and> adjustTimeout sample_env waiting_looper 100 = 30
   \<and> adjustTimeout sample_env waiting_looper 10 = 10
   \<and> adjustTimeout sample_env waiting_looper (-1) = 30
   \<and> adjustTimeout sample_env sample_looper 100 = 100
   \<and> headDeadline waiting_looper = 30000000"
proof -
  note defs = waiting_looper_def sample_poll_defs
  have p100: "pollOnce HAVE_EPOLL sample_env waiting_looper 100 =
       Inr ((POLL_TIMEOUT, 0, 0, 0), waiting_looper\<lparr>effects := [EpollWait 30]\<rparr>)"
    by (simp add: defs)
  have p10: "pollOnce HAVE_EPOLL sample_env waiting_looper 10 =
       Inr ((POLL_TIMEOUT, 0, 0, 0), waiting_looper\<lparr>effects := [EpollWait 10]\<rparr>)"
    by (simp add: defs)
  have pm: "pollOnce HAVE_EPOLL sample_env waiting_looper (-1) =
       Inr ((POLL_TIMEOUT, 0, 0, 0), waiting_looper\<lparr>effects := [EpollWait 30]\<rparr>)"
    by (simp add: defs)
  have ps: "pollOnce HAVE_EPOLL sample_env sample_looper 100 =
       Inr ((POLL_TIMEOUT, 0, 0, 0), sample_looper\<lparr>effects := [EpollWait 100]\<rparr>)"
    by (simp add: defs)
  have p0: "pollOnce HAVE_KQUEUE sample_env waiting_looper 0 =
       Inr ((POLL_TIMEOUT, 0, 0, 0), waiting_looper\<lparr>effects := [KeventWait (Some (0, 0))]\<rparr>)"
    by (simp add: defs)
  have m: "mNextMessageUptime waiting_looper \<noteq> LLONG_MAX"
    "mNextMessageUptime sample_looper = LLONG_MAX"
    by (simp_all add: waiting_looper_def sample_looper_def newLooper_def LLONG_MAX_def)
  have d: "toMillisecondTimeoutDelay sample_env (systemTime_entry sample_env)
      (mNextMessageUptime waiting_looper) = 30"
    by (simp add: sample_env_def waiting_looper_def)
  have h: "headDeadline waiting_looper = 30000000"
    by (simp add: headDeadline_def waiting_looper_def)
  from wait_timeout[of waiting_looper HAVE_EPOLL sample_env 100]
    wait_timeout[of waiting_looper HAVE_EPOLL sample_env 10]
    wait_timeout[of waiting_looper HAVE_EPOLL sample_env "-1"]
    wait_timeout[of sample_looper HAVE_EPOLL sample_env 100]
    m d
  have adj: "adjustTimeout sample_env waiting_looper 100 = 30
   \<and> adjustTimeout sample_env waiting_looper 10 = 10
   \<and> adjustTimeout sample_env waiting_looper (-1) = 30
   \<and> adjustTimeout sample_env sample_looper 100 = 100"
    by (simp add: smaller_timeout_def)
  from p100 p10 pm ps p0 adj h show ?thesis by simp
qed

section \<open>The sequence counter\<close>

text \<open>Every sequence number in use lies below the counter, and the counter is past the
  wake channel's number.\<close>

definition seq_below :: "looper \<Rightarrow> bool" where
  "seq_below s \<longleftrightarrow>
     WAKE_EVENT_FD_SEQ < mNextRequestSeq s
     \<and> (\<forall>sq req. mRequests s sq = Some req \<longrightarrow> sq < mNextRequestSeq s)"

lemma seq_succ: "(x :: 64 word) \<noteq> - 1 \<Longrightarrow> unat (x + 1) = Suc (unat x)"
  using unatSuc[of x] max_word_wrap[of x] by (auto simp: add.commute)

lemma unat_max_seq: "unat (- 1 :: 64 word) = 2 ^ 64 - 1"
  by (simp add: unsigned_minus_1_eq_mask mask_eq_exp_minus_1)

lemma seq_below_new: "seq_below (newLooper a w)"
  by (simp add: seq_below_def newLooper_def WAKE_EVENT_FD_SEQ_def)

lemma seq_below_nextSeq: "seq_below s \<Longrightarrow> nextSeq s = mNextRequestSeq s"
  by (auto simp: seq_below_def nextSeq_def)

lemma seq_below_fresh: "seq_below s \<Longrightarrow> mRequests s (nextSeq s) = None"
proof (rule ccontr)
  assume sb: "seq_below s" and "mRequests s (nextSeq s) \<noteq> None"
  then obtain req where "mRequests s (mNextRequestSeq s) = Some req"
    by (auto simp: seq_below_nextSeq)
  with sb have "mNextRequestSeq s < mNextRequestSeq s" unfolding seq_below_def by blast
  then show False by simp
qed

text \<open>\<open>addFd\<close> either rejects its arguments and changes nothing, or moves the counter one
  past the sequence number it allocates.\<close>

lemma addFd_counter:
  "addFd p y s f idt evs cb d = Inr (r, s') \<Longrightarrow>
     s' = s \<or> mNextRequestSeq s' = nextSeq s + 1"
  by (auto simp: addFd_def addFd_epoll_def addFd_kqueue_def Let_def emit_def nextSeq_def
      insertRequest_def replaceRequest_def scheduleEpollRebuildLocked_def wake_def
      split: if_splits platform.splits option.splits sys_result.splits sum.splits
        write_result.splits)

lemma addFd_keys:
  assumes a: "addFd p y s f idt evs cb d = Inr (r, s')" and k: "mRequests s' sq = Some q"
  shows "sq = nextSeq s \<or> mRequests s sq = Some q"
proof -
  from addFd_return[OF a] show ?thesis
  proof
    assume "r = -1"
    with a k addFd_failure[of p y s f idt evs cb d s'] show ?thesis by simp
  next
    assume r1: "r = 1"
    show ?thesis
    proof (cases "mSequenceNumberByFd s f")
      case None
      from addFd_success_new[OF a[unfolded r1] None] k show ?thesis
        by (auto simp: emplace_def split: option.splits if_splits)
    next
      case (Some oldSeq)
      from addFd_success_replace[OF a[unfolded r1] Some] k show ?thesis
        by (auto simp: emplace_def split: option.splits if_splits)
    qed
  qed
qed

lemma addFd_seq_below:
  assumes sb: "seq_below s" and nw: "mNextRequestSeq s \<noteq> - 1"
    and a: "addFd p y s f idt evs cb d = Inr (r, s')"
  shows "seq_below s'"
proof -
  from addFd_counter[OF a] show ?thesis
  proof
    assume "s' = s" with sb show ?thesis by simp
  next
    assume "mNextRequestSeq s' = nextSeq s + 1"
    with sb have n: "mNextRequestSeq s' = mNextRequestSeq s + 1"
      by (simp add: seq_below_nextSeq)
    have u: "unat (mNextRequestSeq s') = Suc (unat (mNextRequestSeq s))"
      unfolding n by (rule seq_succ[OF nw])
    have 1: "WAKE_EVENT_FD_SEQ < mNextRequestSeq s'"
      using sb u by (simp add: seq_below_def word_less_nat_alt)
    have 2: "\<forall>sq req. mRequests s' sq = Some req \<longrightarrow> sq < mNextRequestSeq s'"
    proof (intro allI impI)
      fix sq req assume "mRequests s' sq = Some req"
      from addFd_keys[OF a this] have "sq = mNextRequestSeq s \<or> sq < mNextRequestSeq s"
        using sb by (auto simp: seq_below_nextSeq seq_below_def)
      then show "sq < mNextRequestSeq s'"
        using u by (auto simp: word_less_nat_alt)
    qed
    from 1 2 show ?thesis by (simp add: seq_below_def)
  qed
qed

text \<open>\<open>shrinks s s'\<close>: the counter is the same and no sequence number is new.\<close>

definition shrinks :: "looper \<Rightarrow> looper \<Rightarrow> bool" where
  "shrinks s s' \<longleftrightarrow>
     mNextRequestSeq s' = mNextRequestSeq s \<and> dom (mRequests s') \<subseteq> dom (mRequests s)"

lemma shrinks_refl: "shrinks s s"
  by (simp add: shrinks_def)

lemma shrinks_trans: "shrinks s s1 \<Longrightarrow> shrinks s1 s2 \<Longrightarrow> shrinks s s2"
  by (simp add: shrinks_def) blast

lemma shrinks_same:
  "mNextRequestSeq s' = mNextRequestSeq s \<Longrightarrow> mRequests s' = mRequests s \<Longrightarrow> shrinks s s'"
  by (simp add: shrinks_def)

lemma shrinks_seq_below: "seq_below s \<Longrightarrow> shrinks s s' \<Longrightarrow> seq_below s'"
  by (auto simp: seq_below_def shrinks_def)

lemma removeSeq_shrinks:
  "removeSequenceNumberLocked p y s sq = Inr (r, s') \<Longrightarrow> shrinks s s'"
  by (auto simp: removeSequenceNumberLocked_def scheduleEpollRebuildLocked_def wake_def
      emit_def Let_def shrinks_def split: option.splits sys_result.splits sum.splits if_splits
      platform.splits write_result.splits)

lemma removeFd_shrinks: "removeFd p y s f = Inr (r, s') \<Longrightarrow> shrinks s s'"
  by (auto simp: removeFd_def shrinks_refl split: option.splits dest: removeSeq_shrinks)

lemma rebuild_counter:
  "rebuildEpollLocked p y s = Inr s' \<Longrightarrow> mNextRequestSeq s' = mNextRequestSeq s"
  by (auto simp: rebuildEpollLocked_def emit_def Let_def split: if_splits platform.splits)

lemma handleItem_counter: "mNextRequestSeq (handleItem s it) = mNextRequestSeq s"
  by (simp add: handleItem_def awoken_def emit_def Let_def split: option.splits)

lemma foldl_handleItem_counter: "mNextRequestSeq (foldl handleItem s its) = mNextRequestSeq s"
  by (induction its arbitrary: s) (simp_all add: handleItem_counter)

lemma pollEvents_shrinks: "pollEvents p y s = Inr (r, s') \<Longrightarrow> shrinks s s'"
proof -
  assume a: "pollEvents p y s = Inr (r, s')"
  have "mNextRequestSeq s' = mNextRequestSeq s"
    using a by (auto simp: pollEvents_def foldl_handleItem_counter
        split: if_splits sum.splits wait_result.splits dest!: rebuild_counter)
  with pollEvents_tables[OF a] show ?thesis by (simp add: shrinks_def)
qed

lemma drainMessages_counter:
  "drainMessages y k s r = (r', s') \<Longrightarrow> mNextRequestSeq s' = mNextRequestSeq s"
proof (induction y k s r rule: drainMessages.induct)
  case (1 y k s result)
  from "1.prems" show ?case
    by (subst (asm) drainMessages.simps)
       (auto simp: emit_def split: list.splits if_splits dest!: "1.IH")
qed

lemma drainMessages_shrinks: "drainMessages y k s r = (r', s') \<Longrightarrow> shrinks s s'"
  using drainMessages_counter[of y k s r r' s'] drainMessages_tables[of y k s r r' s']
  by (simp add: shrinks_def)

lemma invokeCallback_shrinks:
  assumes a: "invokeCallback p y i s = Inr s'"
  shows "shrinks s s'"
proof -
  let ?resp = "mResponses s ! i"
  from a obtain cb where cb: "callback (rsp_request ?resp) = Some cb"
    by (auto simp: invokeCallback_def Let_def split: option.splits)
  let ?e = "HandleEvent cb (fd (rsp_request ?resp)) (rsp_events ?resp) (data (rsp_request ?resp))"
  show ?thesis
  proof (cases "handleEvent y cb (fd (rsp_request ?resp)) (rsp_events ?resp)
                  (data (rsp_request ?resp)) = 0")
    case False
    with a cb show ?thesis
      by (auto simp: invokeCallback_def Let_def shrinks_def)
  next
    case True
    with a cb obtain r2 s2 where
      r: "removeSequenceNumberLocked p y (emit ?e s) (rsp_seq ?resp) = Inr (r2, s2)"
      and s': "mRequests s' = mRequests s2" "mNextRequestSeq s' = mNextRequestSeq s2"
      by (auto simp: invokeCallback_def Let_def split: sum.splits)
    from removeSeq_shrinks[OF r] s' show ?thesis by (simp add: shrinks_def)
  qed
qed

lemma invokeCallbacks_shrinks:
  "invokeCallbacks p y i s r = Inr (r', s') \<Longrightarrow> shrinks s s'"
proof (induction p y i s r arbitrary: r' s' rule: invokeCallbacks.induct)
  case (1 p y i s result)
  show ?case
  proof (cases "i < length (mResponses s)")
    case False
    with "1.prems" show ?thesis
      by (subst (asm) invokeCallbacks.simps) (auto intro: shrinks_refl)
  next
    case True
    note lt = this
    show ?thesis
    proof (cases "ident (rsp_request (mResponses s ! i)) = POLL_CALLBACK")
      case False
      with lt "1.prems" have "invokeCallbacks p y (i + 1) s result = Inr (r', s')"
        by (subst (asm) invokeCallbacks.simps) simp
      from "1.IH"(2)[OF lt False this] show ?thesis .
    next
      case True
      with lt "1.prems" obtain s1 where
        one: "invokeCallback p y i s = Inr s1"
        and rec: "invokeCallbacks p y (i + 1) s1 POLL_CALLBACK = Inr (r', s')"
        by (subst (asm) invokeCallbacks.simps) (auto split: sum.splits)
      from shrinks_trans[OF invokeCallback_shrinks[OF one] "1.IH"(1)[OF lt True one rec]]
      show ?thesis .
    qed
  qed
qed

lemma pollInner_shrinks:
  assumes a: "pollInner p y s t = Inr (r, s')"
  shows "shrinks s s'"
proof -
  let ?s3 = "kernelWait p (adjustTimeout y s t)
               (s\<lparr>mResponses := [], mResponseIndex := 0, mPolling := True\<rparr>)\<lparr>mPolling := False\<rparr>"
  from a obtain r4 s4 r5 s5 where
    pe: "pollEvents p y ?s3 = Inr (r4, s4)"
    and dm: "drainMessages y 0 (s4\<lparr>mNextMessageUptime := LLONG_MAX\<rparr>) r4 = (r5, s5)"
    and ic: "invokeCallbacks p y 0 s5 r5 = Inr (r, s')"
    by (auto simp: pollInner_def Let_def split: sum.splits prod.splits)
  have 3: "shrinks s ?s3"
    by (simp add: shrinks_def kernelWait_effect)
  have 4: "shrinks s4 (s4\<lparr>mNextMessageUptime := LLONG_MAX\<rparr>)"
    by (simp add: shrinks_def)
  from shrinks_trans[OF shrinks_trans[OF shrinks_trans[OF
      shrinks_trans[OF 3 pollEvents_shrinks[OF pe]] 4] drainMessages_shrinks[OF dm]]
      invokeCallbacks_shrinks[OF ic]]
  show ?thesis .
qed

lemma pollOnce_shrinks:
  assumes a: "pollOnce p y s t = Inr (ret, s')"
  shows "shrinks s s'"
proof -
  obtain x s1 where n: "nextIdentifier s = (x, s1)" by (cases "nextIdentifier s")
  from nextIdentifier_frame[OF n] obtain k where k: "s1 = s\<lparr>mResponseIndex := k\<rparr>" by blast
  then have 1: "shrinks s s1" by (simp add: shrinks_def)
  show ?thesis
  proof (cases x)
    case (Some rsp)
    with a n have "s' = s1" by (simp add: pollOnce_unfold)
    with 1 show ?thesis by simp
  next
    case None
    with a n obtain r s2 where pi: "pollInner p y s1 t = Inr (r, s2)"
      by (auto simp: pollOnce_unfold split: sum.splits)
    obtain x2 s3 where n2: "nextIdentifier s2 = (x2, s3)" by (cases "nextIdentifier s2")
    from a n None pi n2 have s': "s' = s3"
      by (auto simp: pollOnce_unfold split: option.splits)
    from nextIdentifier_frame[OF n2] obtain k2 where "s3 = s2\<lparr>mResponseIndex := k2\<rparr>" by blast
    then have "shrinks s2 s3" by (simp add: shrinks_def)
    from shrinks_trans[OF shrinks_trans[OF 1 pollInner_shrinks[OF pi]] this] s'
    show ?thesis by simp
  qed
qed

lemma Looper_seq_below: "Looper p y a = Inr s \<Longrightarrow> seq_below s"
proof -
  assume a: "Looper p y a = Inr s"
  then obtain w where r: "rebuildEpollLocked p y (newLooper a w) = Inr s"
    by (auto simp: Looper_def split: if_splits)
  from rebuild_counter[OF r] rebuild_tables[OF r] seq_below_new[of a w]
  show ?thesis by (simp add: seq_below_def)
qed

lemma Looper_counter: "Looper p y a = Inr s \<Longrightarrow> mNextRequestSeq s = 2"
  by (auto simp: Looper_def newLooper_def WAKE_EVENT_FD_SEQ_def split: if_splits
      dest!: rebuild_counter)

section \<open>Runs of registration calls and polls\<close>

text \<open>The calls of the invariant, each with the environment it meets.\<close>

datatype operation =
    OpAddFd env int int int "callback_ptr option" data_ptr
  | OpRemoveFd env int
  | OpRemoveSeq env SequenceNumber
  | OpPollOnce env int

definition step :: "platform \<Rightarrow> looper \<Rightarrow> operation \<Rightarrow> fatal + looper" where
  "step p s op =
     (case op of
        OpAddFd y f idt evs cb d \<Rightarrow>
          (case addFd p y s f idt evs cb d of Inl x \<Rightarrow> Inl x | Inr (r, s') \<Rightarrow> Inr s')
      | OpRemoveFd y f \<Rightarrow>
          (case removeFd p y s f of Inl x \<Rightarrow> Inl x | Inr (r, s') \<Rightarrow> Inr s')
      | OpRemoveSeq y sq \<Rightarrow>
          (case removeSequenceNumberLocked p y s sq of Inl x \<Rightarrow> Inl x | Inr (r, s') \<Rightarrow> Inr s')
      | OpPollOnce y t \<Rightarrow>
          (case pollOnce p y s t of Inl x \<Rightarrow> Inl x | Inr (ret, s') \<Rightarrow> Inr s'))"

fun run :: "platform \<Rightarrow> looper \<Rightarrow> operation list \<Rightarrow> fatal + looper" where
  "run p s [] = Inr s"
| "run p s (op # ops) = (case step p s op of Inl x \<Rightarrow> Inl x | Inr s1 \<Rightarrow> run p s1 ops)"

lemma step_invariant:
  assumes inv: "index_agrees s" and sb: "seq_below s" and nw: "mNextRequestSeq s \<noteq> - 1"
    and st: "step p s op = Inr s'"
  shows "index_agrees s' \<and> seq_below s'
         \<and> unat (mNextRequestSeq s') \<le> Suc (unat (mNextRequestSeq s))"
proof (cases op)
  case (OpAddFd y f idt evs cb d)
  with st obtain r where a: "addFd p y s f idt evs cb d = Inr (r, s')"
    by (auto simp: step_def split: sum.splits)
  from addFd_counter[OF a] sb have "unat (mNextRequestSeq s') \<le> Suc (unat (mNextRequestSeq s))"
    using seq_succ[OF nw] by (auto simp: seq_below_nextSeq)
  with addFd_index_agrees[OF inv seq_below_fresh[OF sb] a] addFd_seq_below[OF sb nw a]
  show ?thesis by simp
next
  case (OpRemoveFd y f)
  with st obtain r where a: "removeFd p y s f = Inr (r, s')"
    by (auto simp: step_def split: sum.splits)
  from removeFd_index_agrees[OF inv a] shrinks_seq_below[OF sb removeFd_shrinks[OF a]]
    removeFd_shrinks[OF a]
  show ?thesis by (simp add: shrinks_def)
next
  case (OpRemoveSeq y sq)
  with st obtain r where a: "removeSequenceNumberLocked p y s sq = Inr (r, s')"
    by (auto simp: step_def split: sum.splits)
  from removeSeq_index_agrees[OF inv a] shrinks_seq_below[OF sb removeSeq_shrinks[OF a]]
    removeSeq_shrinks[OF a]
  show ?thesis by (simp add: shrinks_def)
next
  case (OpPollOnce y t)
  with st obtain ret where a: "pollOnce p y s t = Inr (ret, s')"
    by (auto simp: step_def split: sum.splits)
  from pollOnce_index_agrees[OF inv a] shrinks_seq_below[OF sb pollOnce_shrinks[OF a]]
    pollOnce_shrinks[OF a]
  show ?thesis by (simp add: shrinks_def)
qed

lemma run_invariant:
  "index_agrees s \<Longrightarrow> seq_below s \<Longrightarrow> unat (mNextRequestSeq s) + length ops < 2 ^ 64 \<Longrightarrow>
     run p s ops = Inr s' \<Longrightarrow>
     index_agrees s' \<and> seq_below s'"
proof (induction ops arbitrary: s)
  case Nil
  then show ?case by simp
next
  case (Cons op ops)
  from Cons.prems(4) obtain s1 where st: "step p s op = Inr s1" and rest: "run p s1 ops = Inr s'"
    by (auto split: sum.splits)
  have nw: "mNextRequestSeq s \<noteq> - 1"
  proof
    assume "mNextRequestSeq s = - 1"
    then have "unat (mNextRequestSeq s) = 2 ^ 64 - 1" by (simp add: unat_max_seq)
    with Cons.prems(3) show False by simp
  qed
  from step_invariant[OF Cons.prems(1,2) nw st]
  have 1: "index_agrees s1" "seq_below s1"
    "unat (mNextRequestSeq s1) \<le> Suc (unat (mNextRequestSeq s))" by simp_all
  from 1(3) Cons.prems(3) have "unat (mNextRequestSeq s1) + length ops < 2 ^ 64" by simp
  from Cons.IH[OF 1(1,2) this rest] show ?case .
qed

text \<open>
  The invariant up to the wrap of the sequence counter: after any run of fewer than
  \<open>2^64 - 2\<close> calls on a constructed Looper the index agrees with the request table, and
  the sequence number the next registration gets is unused.
\<close>

theorem index_agrees_until_wrap:
  assumes "Looper p y a = Inr s" and "run p s ops = Inr s'" and "length ops < 2 ^ 64 - 2"
  shows "index_agrees s' \<and> seq_below s' \<and> mRequests s' (nextSeq s') = None"
proof -
  from assms(1) have c: "unat (mNextRequestSeq s) = 2" by (simp add: Looper_counter)
  with assms(3) have "unat (mNextRequestSeq s) + length ops < 2 ^ 64" by simp
  from run_invariant[OF Looper_index_agrees[OF assms(1)] Looper_seq_below[OF assms(1)] this
      assms(2)]
  show ?thesis by (simp add: seq_below_fresh)
qed


section \<open>The wrap of the sequence counter\<close>

text \<open>A kernel that refuses descriptor 7 and accepts every other one.\<close>

definition refusing_env :: env where
  "refusing_env = sample_env\<lparr>epoll_ctl := \<lambda>op f. if f = 7 then Failure EBADF else Success\<rparr>"

text \<open>The kernel calls of \<open>n\<close> refused registrations of descriptor 7, the first of which
  is given the sequence number \<open>c\<close>.\<close>

definition refusals :: "SequenceNumber \<Rightarrow> nat \<Rightarrow> effect list" where
  "refusals c n =
     map (\<lambda>k. EpollCtl EPOLL_CTL_ADD 7 (Some \<lparr>ep_events = 1, ep_u64 = c + of_nat k\<rparr>)) [0..<n]"

lemma refusals_Suc:
  "refusals c (Suc n) =
     EpollCtl EPOLL_CTL_ADD 7 (Some \<lparr>ep_events = 1, ep_u64 = c\<rparr>) # refusals (c + 1) n"
  by (simp add: refusals_def map_upt_Suc add.assoc del: upt_Suc)

lemma refused_addFd:
  assumes "mNextRequestSeq s \<noteq> WAKE_EVENT_FD_SEQ" and "mSequenceNumberByFd s 7 = None"
  shows "addFd HAVE_EPOLL refusing_env s 7 0 1 (Some 79) 0 =
           Inr (-1, s\<lparr>mNextRequestSeq := mNextRequestSeq s + 1,
                      effects := effects s @
                        [EpollCtl EPOLL_CTL_ADD 7
                           (Some \<lparr>ep_events = 1, ep_u64 = mNextRequestSeq s\<rparr>)]\<rparr>)"
  using assms
  by (simp add: addFd_def addFd_epoll_def Let_def refusing_env_def emit_def
      createEpollEvent_def getEpollEvents_def EVENT_INPUT_def EVENT_OUTPUT_def EPOLLIN_def
      EPOLLOUT_def)

lemma run_refused:
  "\<forall>k < n. mNextRequestSeq s + of_nat k \<noteq> WAKE_EVENT_FD_SEQ \<Longrightarrow>
   mSequenceNumberByFd s 7 = None \<Longrightarrow>
     run HAVE_EPOLL s (replicate n (OpAddFd refusing_env 7 0 1 (Some 79) 0)) =
       Inr (s\<lparr>mNextRequestSeq := mNextRequestSeq s + of_nat n,
              effects := effects s @ refusals (mNextRequestSeq s) n\<rparr>)"
proof (induction n arbitrary: s)
  case 0
  show ?case by (simp add: refusals_def)
next
  case (Suc n)
  let ?c = "mNextRequestSeq s"
  let ?s1 = "s\<lparr>mNextRequestSeq := ?c + 1,
                effects := effects s @
                  [EpollCtl EPOLL_CTL_ADD 7 (Some \<lparr>ep_events = 1, ep_u64 = ?c\<rparr>)]\<rparr>"
  from Suc.prems(1) have c: "?c \<noteq> WAKE_EVENT_FD_SEQ" by force
  have st: "step HAVE_EPOLL s (OpAddFd refusing_env 7 0 1 (Some 79) 0) = Inr ?s1"
    by (simp add: step_def refused_addFd[OF c Suc.prems(2)])
  have "\<forall>k < n. mNextRequestSeq ?s1 + of_nat k \<noteq> WAKE_EVENT_FD_SEQ"
  proof (intro allI impI)
    fix k assume "k < n"
    then have "?c + of_nat (Suc k) \<noteq> WAKE_EVENT_FD_SEQ" using Suc.prems(1) by blast
    then show "mNextRequestSeq ?s1 + of_nat k \<noteq> WAKE_EVENT_FD_SEQ"
      by (simp add: add.assoc)
  qed
  moreover have "mSequenceNumberByFd ?s1 7 = None" using Suc.prems(2) by simp
  ultimately have "run HAVE_EPOLL ?s1 (replicate n (OpAddFd refusing_env 7 0 1 (Some 79) 0)) =
       Inr (?s1\<lparr>mNextRequestSeq := mNextRequestSeq ?s1 + of_nat n,
              effects := effects ?s1 @ refusals (mNextRequestSeq ?s1) n\<rparr>)"
    by (rule Suc.IH)
  with st show ?case
    by (simp add: refusals_Suc add.assoc)
qed

text \<open>The constructed Looper; descriptor 5 registered; then \<open>2^64 - 2\<close> registrations
  that the kernel refuses, which bring the counter round to the wake channel's number
  while descriptor 5 keeps sequence number 2; then descriptor 6 registered.\<close>

definition fresh_looper :: looper where
  "fresh_looper =
     (newLooper True 3)
       \<lparr>mEpollFd := 4,
        effects := [KernelCreate,
                    EpollCtl EPOLL_CTL_ADD 3 (Some \<lparr>ep_events = 1, ep_u64 = 1\<rparr>),
                    EpollRebuildAdd Map.empty]\<rparr>"

definition first_looper :: looper where
  "first_looper =
     fresh_looper\<lparr>mNextRequestSeq := 3, mRequests := [2 \<mapsto> sample_request],
       mSequenceNumberByFd := [5 \<mapsto> 2],
       effects := effects fresh_looper @
         [EpollCtl EPOLL_CTL_ADD 5 (Some \<lparr>ep_events = 1, ep_u64 = 2\<rparr>)]\<rparr>"

definition wrap_count :: nat where
  "wrap_count = 2 ^ 64 - 2"

definition wrap_run :: "operation list" where
  "wrap_run =
     OpAddFd refusing_env 5 0 1 (Some 77) 0
       # replicate wrap_count (OpAddFd refusing_env 7 0 1 (Some 79) 0)"

definition wrapped_looper :: looper where
  "wrapped_looper =
     first_looper\<lparr>mNextRequestSeq := 1,
       effects := effects first_looper @ refusals 3 wrap_count\<rparr>"

definition collided_looper :: looper where
  "collided_looper =
     wrapped_looper\<lparr>mNextRequestSeq := 3, mSequenceNumberByFd := [5 \<mapsto> 2, 6 \<mapsto> 2],
       effects := effects wrapped_looper @
         [EpollCtl EPOLL_CTL_ADD 6 (Some \<lparr>ep_events = 1, ep_u64 = 2\<rparr>)]\<rparr>"

lemma wrap_count_seq: "(3 :: 64 word) + of_nat wrap_count = 1"
  by (simp add: wrap_count_def)

lemma before_wrap:
  assumes "k < wrap_count"
  shows "(3 :: 64 word) + of_nat k \<noteq> WAKE_EVENT_FD_SEQ"
proof
  assume "(3 :: 64 word) + of_nat k = WAKE_EVENT_FD_SEQ"
  then have "(of_nat k :: 64 word) = - 2" by (simp add: WAKE_EVENT_FD_SEQ_def add_eq_0_iff)
  then have "unat (of_nat k :: 64 word) = unat (- 2 :: 64 word)" by simp
  moreover have "unat (of_nat k :: 64 word) = k"
    using assms by (simp add: unat_of_nat wrap_count_def)
  moreover have "unat (- 2 :: 64 word) = 2 ^ 64 - 2" by simp
  ultimately show False using assms by (simp add: wrap_count_def)
qed

lemma Looper_fresh: "Looper HAVE_EPOLL refusing_env True = Inr fresh_looper"
  by (simp add: Looper_def rebuildEpollLocked_def Let_def refusing_env_def sample_env_def
      fresh_looper_def newLooper_def emit_def createEpollEvent_def EPOLLIN_def
      WAKE_EVENT_FD_SEQ_def)

lemma first_addFd:
  "addFd HAVE_EPOLL refusing_env fresh_looper 5 0 1 (Some 77) 0 = Inr (1, first_looper)"
  by (simp add: addFd_def addFd_epoll_def Let_def refusing_env_def sample_env_def
      first_looper_def fresh_looper_def newLooper_def emit_def createEpollEvent_def
      getEpollEvents_def EVENT_INPUT_def EVENT_OUTPUT_def EPOLLIN_def EPOLLOUT_def
      WAKE_EVENT_FD_SEQ_def insertRequest_def emplace_def sample_request_def POLL_CALLBACK_def)

lemma run_wrap: "run HAVE_EPOLL fresh_looper wrap_run = Inr wrapped_looper"
proof -
  have c: "mNextRequestSeq first_looper = 3" "mSequenceNumberByFd first_looper 7 = None"
    by (simp_all add: first_looper_def)
  have "\<forall>k < wrap_count. mNextRequestSeq first_looper + of_nat k \<noteq> WAKE_EVENT_FD_SEQ"
    using before_wrap by (simp add: c)
  from run_refused[OF this c(2)]
  have "run HAVE_EPOLL first_looper (replicate wrap_count (OpAddFd refusing_env 7 0 1 (Some 79) 0))
      = Inr wrapped_looper"
    by (simp add: c wrap_count_seq wrapped_looper_def)
  then show ?thesis
    by (simp add: wrap_run_def step_def first_addFd)
qed

text \<open>
  Claim C4.  The claim is that \<open>addFd\<close>, \<open>removeFd\<close>, \<open>removeSequenceNumberLocked\<close> and
  \<open>pollOnce\<close> keep the index and the request table in agreement.  Up to the wrap of the
  sequence counter they do (\<open>index_agrees_until_wrap\<close>).  At the wrap \<open>addFd\<close> does not:
  the Looper is constructed, descriptor 5 is registered, \<open>2^64 - 2\<close> registrations are
  refused by the kernel, and descriptor 6 is registered.  Before the last call the index
  agrees with the request table.  The last call is given sequence number 2, which
  descriptor 5 still holds: \<open>emplace\<close> keeps the request of descriptor 5 and the index
  now sends descriptor 6 to it.  The agreement is broken, and \<open>repoll\<close> of descriptor 6
  fails the assertion of \<open>repoll\<close> that states it.
\<close>

theorem index_agrees_wrap_violation:
  "Looper HAVE_EPOLL refusing_env True = Inr fresh_looper
   \<and> run HAVE_EPOLL fresh_looper wrap_run = Inr wrapped_looper
   \<and> index_agrees wrapped_looper
   \<and> addFd HAVE_EPOLL refusing_env wrapped_looper 6 0 1 (Some 78) 0 = Inr (1, collided_looper)
   \<and> mSequenceNumberByFd collided_looper 6 = Some 2
   \<and> mRequests collided_looper 2 = Some sample_request
   \<and> fd sample_request = 5
   \<and> \<not> index_agrees collided_looper
   \<and> repoll HAVE_EPOLL refusing_env collided_looper 6 = Inl FatalInconsistent"
proof -
  have i: "index_agrees wrapped_looper"
    by (rule index_agrees_same[OF index_agrees_registered])
       (simp_all add: wrapped_looper_def first_looper_def registered_looper_def)
  have a: "addFd HAVE_EPOLL refusing_env wrapped_looper 6 0 1 (Some 78) 0 =
      Inr (1, collided_looper)"
    by (simp add: addFd_def addFd_epoll_def Let_def collided_looper_def wrapped_looper_def
        first_looper_def fresh_looper_def newLooper_def refusing_env_def sample_env_def
        WAKE_EVENT_FD_SEQ_def insertRequest_def emplace_def emit_def getEpollEvents_def
        createEpollEvent_def EVENT_INPUT_def EVENT_OUTPUT_def EPOLLIN_def EPOLLOUT_def
        POLL_CALLBACK_def sample_request_def)
  have r: "mRequests collided_looper 2 = Some sample_request"
    "mSequenceNumberByFd collided_looper 6 = Some 2" "fd sample_request = 5"
    by (simp_all add: collided_looper_def wrapped_looper_def first_looper_def
        sample_request_def)
  have n: "\<not> index_agrees collided_looper"
  proof
    assume "index_agrees collided_looper"
    then have "\<exists>req. mRequests collided_looper 2 = Some req \<and> fd req = 6"
      using r(2) unfolding index_agrees_def by blast
    with r(1,3) show False by simp
  qed
  have q: "repoll HAVE_EPOLL refusing_env collided_looper 6 = Inl FatalInconsistent"
    by (simp add: repoll_def collided_looper_def wrapped_looper_def first_looper_def
        sample_request_def)
  from Looper_fresh run_wrap i a r n q show ?thesis by simp
qed

text \<open>The entry of the index that has no request of its descriptor: descriptor 6 is
  sent to sequence number 2, whose request is that of descriptor 5.\<close>

theorem index_agrees_wrap_violation_witness:
  "mSequenceNumberByFd collided_looper 6 = Some 2
   \<and> mRequests collided_looper 2 = Some sample_request
   \<and> \<not> (\<exists>req. mRequests collided_looper 2 = Some req \<and> fd req = 6)
   \<and> repoll HAVE_EPOLL refusing_env collided_looper 6 = Inl FatalInconsistent"
  using index_agrees_wrap_violation by simp

section \<open>Which callbacks an inner poll invokes\<close>

text \<open>\<open>callback_of rsps e\<close>: if \<open>e\<close> is the invocation of a callback, it is the callback
  of one of the responses \<open>rsps\<close>, invoked with the descriptor, events and data of that
  response.\<close>

definition callback_of :: "Response list \<Rightarrow> effect \<Rightarrow> bool" where
  "callback_of rsps e =
     (case e of
        HandleEvent cb f evs d \<Rightarrow>
          (\<exists>rsp \<in> set rsps. ident (rsp_request rsp) = POLL_CALLBACK
             \<and> callback (rsp_request rsp) = Some cb \<and> fd (rsp_request rsp) = f
             \<and> rsp_events rsp = evs \<and> data (rsp_request rsp) = d)
      | _ \<Rightarrow> True)"

lemma callback_of_mono:
  "callback_of A e \<Longrightarrow> set A \<subseteq> set B \<Longrightarrow> callback_of B e"
  by (auto simp: callback_of_def split: effect.splits)

lemma callback_of_other: "\<not> is_dispatch e \<Longrightarrow> callback_of rsps e"
  by (auto simp: callback_of_def is_dispatch_def split: effect.splits)

lemma invokeCallback_events:
  assumes a: "invokeCallback p y i s = Inr s'"
    and lt: "i < length (mResponses s)"
    and cbk: "ident (rsp_request (mResponses s ! i)) = POLL_CALLBACK"
  shows "grows (callback_of (drop i (mResponses s))) s s'"
proof -
  let ?resp = "mResponses s ! i"
  let ?P = "callback_of (drop i (mResponses s))"
  from a obtain cb where cb: "callback (rsp_request ?resp) = Some cb"
    by (auto simp: invokeCallback_def Let_def split: option.splits)
  let ?e = "HandleEvent cb (fd (rsp_request ?resp)) (rsp_events ?resp) (data (rsp_request ?resp))"
  have "?resp \<in> set (drop i (mResponses s))"
    using lt by (metis Cons_nth_drop_Suc list.set_intros(1))
  with cb cbk have pe: "?P ?e"
    by (auto simp: callback_of_def)
  have 1: "grows ?P s (emit ?e s)" using pe by (rule grows_emit[where P = "?P"])
  have "grows ?P (emit ?e s) s'"
  proof (cases "handleEvent y cb (fd (rsp_request ?resp)) (rsp_events ?resp)
                  (data (rsp_request ?resp)) = 0")
    case False
    with a cb show ?thesis
      by (auto simp: invokeCallback_def Let_def intro!: grows_same)
  next
    case True
    with a cb obtain r2 s2 where
      r: "removeSequenceNumberLocked p y (emit ?e s) (rsp_seq ?resp) = Inr (r2, s2)"
      and s': "effects s' = effects s2"
      by (auto simp: invokeCallback_def Let_def split: sum.splits)
    have "grows ?P (emit ?e s) s2"
      by (rule removeSeq_grows[OF r])
         (auto simp: is_ctl_def callback_of_def split: effect.splits)
    with s' show ?thesis by (auto elim: grows_eq)
  qed
  from grows_trans[OF 1 this] show ?thesis .
qed

lemma invokeCallbacks_events:
  "invokeCallbacks p y i s r = Inr (r', s') \<Longrightarrow>
     grows (callback_of (drop i (mResponses s))) s s'"
proof (induction p y i s r arbitrary: r' s' rule: invokeCallbacks.induct)
  case (1 p y i s result)
  show ?case
  proof (cases "i < length (mResponses s)")
    case False
    with "1.prems" show ?thesis
      by (subst (asm) invokeCallbacks.simps) (auto intro: grows_same)
  next
    case True
    note lt = this
    have sub: "set (drop (i + 1) (mResponses s)) \<subseteq> set (drop i (mResponses s))"
      by (metis Suc_eq_plus1 drop_Suc set_drop_subset tl_drop drop_drop add.commute)
    show ?thesis
    proof (cases "ident (rsp_request (mResponses s ! i)) = POLL_CALLBACK")
      case False
      with lt "1.prems" have "invokeCallbacks p y (i + 1) s result = Inr (r', s')"
        by (subst (asm) invokeCallbacks.simps) simp
      from "1.IH"(2)[OF lt False this] show ?thesis
        by (rule grows_mono) (rule callback_of_mono[OF _ sub])
    next
      case True
      with lt "1.prems" obtain s1 where
        one: "invokeCallback p y i s = Inr s1"
        and rec: "invokeCallbacks p y (i + 1) s1 POLL_CALLBACK = Inr (r', s')"
        by (subst (asm) invokeCallbacks.simps) (auto split: sum.splits)
      have d: "drop (i + 1) (mResponses s1) = drop (i + 1) (mResponses s)"
        using invokeCallback_responses[OF one] by simp
      from "1.IH"(1)[OF lt True one rec]
      have "grows (callback_of (drop (i + 1) (mResponses s))) s1 s'"
        unfolding d .
      then have "grows (callback_of (drop i (mResponses s))) s1 s'"
        by (rule grows_mono) (rule callback_of_mono[OF _ sub])
      from grows_trans[OF invokeCallback_events[OF one lt True] this] show ?thesis .
    qed
  qed
qed

lemma drainMessages_grows:
  "drainMessages y k s r = (r', s') \<Longrightarrow> grows (\<lambda>e. \<exists>h m. e = HandleMessage h m) s s'"
  by (drule drainMessages_dispatch)
     (auto simp: grows_def dispatch_def list_all_iff dest: in_set_takeD)

lemma pollInner_events:
  assumes a: "pollInner p y s t = Inr (r, s')"
  shows "grows (callback_of (producedResponses s y)) s s'"
proof -
  let ?P = "callback_of (producedResponses s y)"
  let ?s1 = "s\<lparr>mResponses := [], mResponseIndex := 0, mPolling := True\<rparr>"
  let ?s3 = "kernelWait p (adjustTimeout y s t) ?s1\<lparr>mPolling := False\<rparr>"
  from a obtain r4 s4 r5 s5 where
    pe: "pollEvents p y ?s3 = Inr (r4, s4)"
    and dm: "drainMessages y 0 (s4\<lparr>mNextMessageUptime := LLONG_MAX\<rparr>) r4 = (r5, s5)"
    and ic: "invokeCallbacks p y 0 s5 r5 = Inr (r, s')"
    by (auto simp: pollInner_def Let_def split: sum.splits prod.splits)
  have "mResponses ?s3 = []" by (simp add: kernelWait_effect)
  from pollEvents_responses[OF pe this]
  have 4: "mResponses s4 = producedResponses s y"
    by (simp add: producedResponses_def kernelWait_effect cong: wait_result.case_cong)
  from drainMessages_responses[OF dm] 4
  have 5: "mResponses s5 = producedResponses s y" by simp
  have g3: "grows ?P s ?s3"
    unfolding grows_def
    by (intro exI[of _ "[waitEffect p (adjustTimeout y s t)]"])
       (simp add: kernelWait_effect callback_of_def waitEffect_def split: platform.splits)
  have g4: "grows ?P ?s3 (s4\<lparr>mNextMessageUptime := LLONG_MAX\<rparr>)"
    by (rule grows_eq[OF grows_mono[OF pollEvents_grows[OF pe]]])
       (auto simp: is_internal_def callback_of_def split: effect.splits)
  have g5: "grows ?P (s4\<lparr>mNextMessageUptime := LLONG_MAX\<rparr>) s5"
    by (rule grows_mono[OF drainMessages_grows[OF dm]]) (auto simp: callback_of_def)
  have g6: "grows ?P s5 s'"
    using invokeCallbacks_events[OF ic] 5 by simp
  from grows_trans[OF grows_trans[OF grows_trans[OF g3 g4] g5] g6] show ?thesis .
qed

lemma translated_registered:
  "rsp \<in> set (translated reqs its) \<Longrightarrow>
     reqs (rsp_seq rsp) = Some (rsp_request rsp) \<and> rsp_seq rsp \<noteq> WAKE_EVENT_FD_SEQ"
  by (auto simp: translated_def response_of_def split: if_splits option.splits)

lemma producedResponses_registered:
  "rsp \<in> set (producedResponses s y) \<Longrightarrow>
     mRequests s (rsp_seq rsp) = Some (rsp_request rsp) \<and> rsp_seq rsp \<noteq> WAKE_EVENT_FD_SEQ"
  by (auto simp: producedResponses_def split: if_splits wait_result.splits
      dest: translated_registered)

lemma settled_seq: "list_all2 settled xs ys \<Longrightarrow> map rsp_seq ys = map rsp_seq xs"
  by (induction rule: list_all2_induct) (auto simp: settled_def cleared_def)

lemma pollInner_no_stale:
  assumes a: "pollInner p y s t = Inr (r, s2)" and n: "mRequests s sq = None"
  shows "\<forall>rsp \<in> set (mResponses s2). rsp_seq rsp \<noteq> sq"
proof -
  from pollInner_responses[OF a] have "map rsp_seq (mResponses s2) =
      map rsp_seq (producedResponses s y)"
    by (simp add: settled_seq)
  then have "rsp_seq ` set (mResponses s2) = rsp_seq ` set (producedResponses s y)"
    by (metis set_map)
  moreover have "sq \<notin> rsp_seq ` set (producedResponses s y)"
    using n by (auto dest: producedResponses_registered)
  ultimately show ?thesis by auto
qed

section \<open>User code that calls the Looper\<close>

text \<open>
  \<open>pollInner\<close> releases the lock before it runs a message handler (line 414) and holds
  no lock while it runs the callbacks (lines 434 to 461), so a handler or a callback, or
  another thread meanwhile, can call the Looper.  Such calls are inputs of the model:
  for each handler and each callback that runs, the list of the calls made while it
  runs.  They are calls of the public interface; what they return goes to the caller and
  is dropped here.  A call of \<open>pollOnce\<close> from inside the loop is left out.
\<close>

datatype call =
    CallAddFd int int int "callback_ptr option" data_ptr
  | CallRemoveFd int
  | CallRepoll int
  | CallSendMessageAtTime nsecs_t handler_ptr Message
  | CallRemoveMessages handler_ptr
  | CallRemoveMessagesWhat handler_ptr int
  | CallWake

definition runCall :: "platform \<Rightarrow> env \<Rightarrow> looper \<Rightarrow> call \<Rightarrow> fatal + looper" where
  "runCall p y s c =
     (case c of
        CallAddFd f idt evs cb d \<Rightarrow>
          (case addFd p y s f idt evs cb d of Inl x \<Rightarrow> Inl x | Inr (r, s') \<Rightarrow> Inr s')
      | CallRemoveFd f \<Rightarrow>
          (case removeFd p y s f of Inl x \<Rightarrow> Inl x | Inr (r, s') \<Rightarrow> Inr s')
      | CallRepoll f \<Rightarrow>
          (case repoll p y s f of Inl x \<Rightarrow> Inl x | Inr (r, s') \<Rightarrow> Inr s')
      | CallSendMessageAtTime t h m \<Rightarrow> sendMessageAtTime y s t h m
      | CallRemoveMessages h \<Rightarrow> Inr (removeMessages s h)
      | CallRemoveMessagesWhat h w \<Rightarrow> Inr (removeMessagesWhat s h w)
      | CallWake \<Rightarrow> wake y s)"

fun runCalls :: "platform \<Rightarrow> env \<Rightarrow> looper \<Rightarrow> call list \<Rightarrow> fatal + looper" where
  "runCalls p y s [] = Inr s"
| "runCalls p y s (c # cs) =
     (case runCall p y s c of Inl x \<Rightarrow> Inl x | Inr s1 \<Rightarrow> runCalls p y s1 cs)"

text \<open>\<open>on_message\<close> holds, for the first, second, ... message that a poll dispatches, the
  calls made while its handler runs (handlers past the end of the list make none);
  \<open>on_event i\<close> holds the calls made while the callback of the response at index \<open>i\<close>
  runs.\<close>

record user_code =
  on_message :: "call list list"
  on_event :: "nat \<Rightarrow> call list"

definition quiet :: user_code where
  "quiet = \<lparr>on_message = [], on_event = (\<lambda>i. [])\<rparr>"

text \<open>The message loop with these calls.  The handler runs, and the calls are made, while
  \<open>mSendingMessage\<close> is set.\<close>

fun drainMessages_reentrant ::
  "platform \<Rightarrow> env \<Rightarrow> call list list \<Rightarrow> nat \<Rightarrow> looper \<Rightarrow> int \<Rightarrow> fatal + (int \<times> looper)" where
  "drainMessages_reentrant p y [] k s result = Inr (drainMessages y k s result)"
| "drainMessages_reentrant p y (calls # later) k s result =
     (case mMessageEnvelopes s of
        [] \<Rightarrow> Inr (result, s)
      | messageEnvelope # rest \<Rightarrow>
          (if uptime messageEnvelope \<le> systemTime_drain y k then
             (case runCalls p y
                     (emit (HandleMessage (handler messageEnvelope) (message messageEnvelope))
                        (s\<lparr>mMessageEnvelopes := rest, mSendingMessage := True\<rparr>))
                     calls of
                Inl x \<Rightarrow> Inl x
              | Inr s1 \<Rightarrow>
                  drainMessages_reentrant p y later (Suc k) (s1\<lparr>mSendingMessage := False\<rparr>)
                    POLL_CALLBACK)
           else Inr (result, s\<lparr>mNextMessageUptime := uptime messageEnvelope\<rparr>)))"

text \<open>The body of the callback loop with these calls.  The response is the one read
  before the callback runs: it holds its own copy of the request.\<close>

definition invokeCallback_reentrant ::
  "platform \<Rightarrow> env \<Rightarrow> call list \<Rightarrow> nat \<Rightarrow> looper \<Rightarrow> fatal + looper" where
  "invokeCallback_reentrant p y calls i s =
     (let response = mResponses s ! i in
      case callback (rsp_request response) of
        None \<Rightarrow> Inl NullCallback
      | Some cb \<Rightarrow>
          (let f = fd (rsp_request response);
               evs = rsp_events response;
               d = data (rsp_request response);
               callbackResult = handleEvent y cb f evs d
           in case runCalls p y (emit (HandleEvent cb f evs d) s) calls of
                Inl x \<Rightarrow> Inl x
              | Inr s1 \<Rightarrow>
                  (case (if callbackResult = 0
                         then removeSequenceNumberLocked p y s1 (rsp_seq response)
                         else Inr (0, s1)) of
                     Inl x \<Rightarrow> Inl x
                   | Inr (r, s2) \<Rightarrow>
                       Inr (s2\<lparr>mResponses := (mResponses s2)
                                 [i := response\<lparr>rsp_request :=
                                        (rsp_request response)\<lparr>callback := None\<rparr>\<rparr>]\<rparr>))))"

text \<open>No call of the public interface touches the response buffer.\<close>

lemma addFd_responses:
  "addFd p y s f idt evs cb d = Inr (r, s') \<Longrightarrow>
     mResponses s' = mResponses s \<and> mResponseIndex s' = mResponseIndex s"
  by (auto simp: addFd_def addFd_epoll_def addFd_kqueue_def Let_def emit_def
      insertRequest_def replaceRequest_def scheduleEpollRebuildLocked_def wake_def
      split: if_splits platform.splits option.splits sys_result.splits sum.splits
        write_result.splits)

lemma repoll_responses:
  "repoll p y s f = Inr (r, s') \<Longrightarrow>
     mResponses s' = mResponses s \<and> mResponseIndex s' = mResponseIndex s"
  by (auto simp: repoll_def Let_def emit_def
      split: if_splits platform.splits option.splits)

lemma sendMessageAtTime_responses:
  "sendMessageAtTime y s t h m = Inr s' \<Longrightarrow>
     mResponses s' = mResponses s \<and> mResponseIndex s' = mResponseIndex s"
  by (auto simp: sendMessageAtTime_def Let_def wake_def emit_def
      split: if_splits write_result.splits)

lemma runCall_responses:
  "runCall p y s c = Inr s' \<Longrightarrow>
     mResponses s' = mResponses s \<and> mResponseIndex s' = mResponseIndex s"
proof (cases c)
  case (CallAddFd f idt evs cb d)
  then show "runCall p y s c = Inr s' \<Longrightarrow> ?thesis"
    by (auto simp: runCall_def split: sum.splits dest: addFd_responses)
next
  case (CallRemoveFd f)
  then show "runCall p y s c = Inr s' \<Longrightarrow> ?thesis"
    by (auto simp: runCall_def removeFd_def split: sum.splits option.splits
        dest: removeSequenceNumberLocked_responses removeSeq_index)
next
  case (CallRepoll f)
  then show "runCall p y s c = Inr s' \<Longrightarrow> ?thesis"
    by (auto simp: runCall_def split: sum.splits dest: repoll_responses)
next
  case (CallSendMessageAtTime t h m)
  then show "runCall p y s c = Inr s' \<Longrightarrow> ?thesis"
    by (auto simp: runCall_def dest: sendMessageAtTime_responses)
next
  case (CallRemoveMessages h)
  then show "runCall p y s c = Inr s' \<Longrightarrow> ?thesis"
    by (auto simp: runCall_def removeMessages_def)
next
  case (CallRemoveMessagesWhat h w)
  then show "runCall p y s c = Inr s' \<Longrightarrow> ?thesis"
    by (auto simp: runCall_def removeMessagesWhat_def)
next
  case CallWake
  then show "runCall p y s c = Inr s' \<Longrightarrow> ?thesis"
    by (auto simp: runCall_def wake_def emit_def split: write_result.splits if_splits)
qed

lemma runCalls_responses:
  "runCalls p y s cs = Inr s' \<Longrightarrow>
     mResponses s' = mResponses s \<and> mResponseIndex s' = mResponseIndex s"
proof (induction cs arbitrary: s)
  case Nil
  then show ?case by simp
next
  case (Cons c cs)
  from Cons.prems obtain s1 where 1: "runCall p y s c = Inr s1" and 2: "runCalls p y s1 cs = Inr s'"
    by (auto split: sum.splits)
  from Cons.IH[OF 2] runCall_responses[OF 1] show ?case by simp
qed

lemma invokeCallback_reentrant_responses:
  assumes a: "invokeCallback_reentrant p y calls i s = Inr s'"
  shows "mResponses s' = (mResponses s)[i := cleared (mResponses s ! i)]
         \<and> mResponseIndex s' = mResponseIndex s"
proof -
  let ?resp = "mResponses s ! i"
  from a obtain cb where cb: "callback (rsp_request ?resp) = Some cb"
    by (auto simp: invokeCallback_reentrant_def Let_def split: option.splits)
  let ?e = "HandleEvent cb (fd (rsp_request ?resp)) (rsp_events ?resp) (data (rsp_request ?resp))"
  from a cb obtain s1 where rc: "runCalls p y (emit ?e s) calls = Inr s1"
    by (auto simp: invokeCallback_reentrant_def Let_def split: sum.splits)
  from runCalls_responses[OF rc]
  have 1: "mResponses s1 = mResponses s" "mResponseIndex s1 = mResponseIndex s" by simp_all
  show ?thesis
  proof (cases "handleEvent y cb (fd (rsp_request ?resp)) (rsp_events ?resp)
                  (data (rsp_request ?resp)) = 0")
    case False
    with a cb rc 1 show ?thesis
      by (auto simp: invokeCallback_reentrant_def Let_def cleared_def)
  next
    case True
    with a cb rc obtain r2 s2 where
      r: "removeSequenceNumberLocked p y s1 (rsp_seq ?resp) = Inr (r2, s2)"
      and s': "s' = s2\<lparr>mResponses := (mResponses s2)[i := cleared ?resp]\<rparr>"
      by (auto simp: invokeCallback_reentrant_def Let_def cleared_def split: sum.splits)
    from removeSequenceNumberLocked_responses[OF r] removeSeq_index[OF r] s' 1
    show ?thesis by simp
  qed
qed

lemma invokeCallback_reentrant_length:
  "invokeCallback_reentrant p y calls i s = Inr s' \<Longrightarrow>
     length (mResponses s') = length (mResponses s)"
  by (drule invokeCallback_reentrant_responses) simp

function invokeCallbacks_reentrant ::
  "platform \<Rightarrow> env \<Rightarrow> (nat \<Rightarrow> call list) \<Rightarrow> nat \<Rightarrow> looper \<Rightarrow> int
     \<Rightarrow> fatal + (int \<times> looper)" where
  "invokeCallbacks_reentrant p y calls i s result =
     (if i < length (mResponses s) then
        (if ident (rsp_request (mResponses s ! i)) = POLL_CALLBACK then
           (case invokeCallback_reentrant p y (calls i) i s of
              Inl x \<Rightarrow> Inl x
            | Inr s1 \<Rightarrow> invokeCallbacks_reentrant p y calls (i + 1) s1 POLL_CALLBACK)
         else invokeCallbacks_reentrant p y calls (i + 1) s result)
      else Inr (result, s))"
  by pat_completeness auto
termination
  by (relation "measure (\<lambda>(p, y, calls, i, s, result). length (mResponses s) - i)")
     (auto dest!: invokeCallback_reentrant_length)

declare invokeCallbacks_reentrant.simps [simp del]

definition pollInner_reentrant ::
  "platform \<Rightarrow> env \<Rightarrow> user_code \<Rightarrow> looper \<Rightarrow> int \<Rightarrow> fatal + (int \<times> looper)" where
  "pollInner_reentrant p y u s timeoutMillis =
     (let t = adjustTimeout y s timeoutMillis;
          s1 = s\<lparr>mResponses := [], mResponseIndex := 0, mPolling := True\<rparr>;
          s2 = kernelWait p t s1;
          s3 = s2\<lparr>mPolling := False\<rparr>
      in case pollEvents p y s3 of
           Inl x \<Rightarrow> Inl x
         | Inr (result, s4) \<Rightarrow>
             (case drainMessages_reentrant p y (on_message u) 0
                     (s4\<lparr>mNextMessageUptime := LLONG_MAX\<rparr>) result of
                Inl x \<Rightarrow> Inl x
              | Inr (result1, s5) \<Rightarrow> invokeCallbacks_reentrant p y (on_event u) 0 s5 result1))"

text \<open>With user code that makes no call, these are the functions of the loop core.\<close>

lemma invokeCallback_quiet: "invokeCallback_reentrant p y [] i s = invokeCallback p y i s"
  by (simp add: invokeCallback_reentrant_def invokeCallback_def Let_def split: option.splits)

lemma invokeCallbacks_quiet:
  "invokeCallbacks_reentrant p y (\<lambda>i. []) i s r = invokeCallbacks p y i s r"
proof (induction p y i s r rule: invokeCallbacks.induct)
  case (1 p y i s result)
  show ?case
  proof (cases "i < length (mResponses s)")
    case False
    then show ?thesis
      by (simp add: invokeCallbacks_reentrant.simps[of p y _ i s result]
          invokeCallbacks.simps[of p y i s result])
  next
    case True
    note lt = this
    show ?thesis
    proof (cases "ident (rsp_request (mResponses s ! i)) = POLL_CALLBACK")
      case False
      with lt "1.IH"(2) show ?thesis
        by (simp add: invokeCallbacks_reentrant.simps[of p y _ i s result]
            invokeCallbacks.simps[of p y i s result])
    next
      case True
      show ?thesis
      proof (cases "invokeCallback p y i s")
        case (Inl x)
        with lt True show ?thesis
          by (simp add: invokeCallbacks_reentrant.simps[of p y _ i s result]
              invokeCallbacks.simps[of p y i s result] invokeCallback_quiet)
      next
        case (Inr s1)
        with lt True "1.IH"(1)[OF lt True Inr] show ?thesis
          by (simp add: invokeCallbacks_reentrant.simps[of p y _ i s result]
              invokeCallbacks.simps[of p y i s result] invokeCallback_quiet)
      qed
    qed
  qed
qed

lemma pollInner_quiet: "pollInner_reentrant p y quiet s t = pollInner p y s t"
  by (simp add: pollInner_reentrant_def pollInner_def quiet_def Let_def invokeCallbacks_quiet
      split: sum.splits prod.splits)


text \<open>What the calls do to the outside world: kernel set operations and wake writes.\<close>

lemma addFd_grows: "addFd p y s f idt evs cb d = Inr (r, s') \<Longrightarrow> grows is_ctl s s'"
  by (auto simp: addFd_def addFd_epoll_def addFd_kqueue_def Let_def emit_def grows_def
      is_ctl_def insertRequest_def replaceRequest_def scheduleEpollRebuildLocked_def wake_def
      split: if_splits platform.splits option.splits sys_result.splits sum.splits
        write_result.splits)

lemma repoll_grows: "repoll p y s f = Inr (r, s') \<Longrightarrow> grows is_ctl s s'"
  by (auto simp: repoll_def Let_def emit_def grows_def is_ctl_def
      split: if_splits platform.splits option.splits)

lemma sendMessageAtTime_grows: "sendMessageAtTime y s t h m = Inr s' \<Longrightarrow> grows is_ctl s s'"
  by (auto simp: sendMessageAtTime_def Let_def wake_def emit_def grows_def is_ctl_def
      split: if_splits write_result.splits)

lemma runCall_grows: "runCall p y s c = Inr s' \<Longrightarrow> grows is_ctl s s'"
proof (cases c)
  case (CallAddFd f idt evs cb d)
  then show "runCall p y s c = Inr s' \<Longrightarrow> ?thesis"
    by (auto simp: runCall_def split: sum.splits dest: addFd_grows)
next
  case (CallRemoveFd f)
  then show "runCall p y s c = Inr s' \<Longrightarrow> ?thesis"
    by (auto simp: runCall_def removeFd_def split: sum.splits option.splits
        intro: grows_same removeSeq_grows)
next
  case (CallRepoll f)
  then show "runCall p y s c = Inr s' \<Longrightarrow> ?thesis"
    by (auto simp: runCall_def split: sum.splits dest: repoll_grows)
next
  case (CallSendMessageAtTime t h m)
  then show "runCall p y s c = Inr s' \<Longrightarrow> ?thesis"
    by (auto simp: runCall_def dest: sendMessageAtTime_grows)
next
  case (CallRemoveMessages h)
  then show "runCall p y s c = Inr s' \<Longrightarrow> ?thesis"
    by (auto simp: runCall_def removeMessages_def intro: grows_same)
next
  case (CallRemoveMessagesWhat h w)
  then show "runCall p y s c = Inr s' \<Longrightarrow> ?thesis"
    by (auto simp: runCall_def removeMessagesWhat_def intro: grows_same)
next
  case CallWake
  then show "runCall p y s c = Inr s' \<Longrightarrow> ?thesis"
    by (auto simp: runCall_def is_ctl_def intro: wake_grows)
qed

lemma runCalls_grows: "runCalls p y s cs = Inr s' \<Longrightarrow> grows is_ctl s s'"
proof (induction cs arbitrary: s)
  case Nil
  then show ?case by (simp add: grows_same)
next
  case (Cons c cs)
  from Cons.prems obtain s1 where 1: "runCall p y s c = Inr s1" and 2: "runCalls p y s1 cs = Inr s'"
    by (auto split: sum.splits)
  from grows_trans[OF runCall_grows[OF 1] Cons.IH[OF 2]] show ?case .
qed

definition is_event :: "effect \<Rightarrow> bool" where
  "is_event e = (case e of HandleEvent cb f evs d \<Rightarrow> True | _ \<Rightarrow> False)"

lemma is_ctl_not_event: "is_ctl e \<Longrightarrow> \<not> is_event e"
  by (auto simp: is_ctl_def is_event_def split: effect.splits)

lemma callback_of_not_event: "\<not> is_event e \<Longrightarrow> callback_of rsps e"
  by (auto simp: callback_of_def is_event_def split: effect.splits)

lemma drainMessages_reentrant_responses:
  "drainMessages_reentrant p y css k s r = Inr (r', s') \<Longrightarrow>
     mResponses s' = mResponses s \<and> mResponseIndex s' = mResponseIndex s"
proof (induction css arbitrary: k s r)
  case Nil
  then show ?case by (auto dest: drainMessages_responses)
next
  case (Cons calls later)
  show ?case
  proof (cases "mMessageEnvelopes s")
    case Nil
    with Cons.prems show ?thesis by simp
  next
    case (Cons e rest)
    show ?thesis
    proof (cases "uptime e \<le> systemTime_drain y k")
      case False
      with Cons Cons.prems show ?thesis by auto
    next
      case True
      let ?s0 = "emit (HandleMessage (handler e) (message e))
                  (s\<lparr>mMessageEnvelopes := rest, mSendingMessage := True\<rparr>)"
      from Cons True Cons.prems obtain s1 where
        rc: "runCalls p y ?s0 calls = Inr s1"
        and rec: "drainMessages_reentrant p y later (Suc k) (s1\<lparr>mSendingMessage := False\<rparr>)
                    POLL_CALLBACK = Inr (r', s')"
        by (auto split: sum.splits)
      from Cons.IH[OF rec] runCalls_responses[OF rc] show ?thesis by simp
    qed
  qed
qed

lemma drainMessages_reentrant_grows:
  "drainMessages_reentrant p y css k s r = Inr (r', s') \<Longrightarrow> grows (\<lambda>e. \<not> is_event e) s s'"
proof (induction css arbitrary: k s r)
  case Nil
  then have "drainMessages y k s r = (r', s')" by simp
  show ?case
    by (rule grows_mono[OF drainMessages_grows[OF \<open>drainMessages y k s r = (r', s')\<close>]])
       (auto simp: is_event_def)
next
  case (Cons calls later)
  show ?case
  proof (cases "mMessageEnvelopes s")
    case Nil
    with Cons.prems show ?thesis by (simp add: grows_same)
  next
    case (Cons e rest)
    show ?thesis
    proof (cases "uptime e \<le> systemTime_drain y k")
      case False
      with Cons Cons.prems show ?thesis by (auto intro: grows_same)
    next
      case True
      let ?s0 = "emit (HandleMessage (handler e) (message e))
                  (s\<lparr>mMessageEnvelopes := rest, mSendingMessage := True\<rparr>)"
      from Cons True Cons.prems obtain s1 where
        rc: "runCalls p y ?s0 calls = Inr s1"
        and rec: "drainMessages_reentrant p y later (Suc k) (s1\<lparr>mSendingMessage := False\<rparr>)
                    POLL_CALLBACK = Inr (r', s')"
        by (auto split: sum.splits)
      have 0: "grows (\<lambda>e. \<not> is_event e) s ?s0"
        by (simp add: grows_def is_event_def)
      have 1: "grows (\<lambda>e. \<not> is_event e) ?s0 (s1\<lparr>mSendingMessage := False\<rparr>)"
        by (rule grows_eq[OF grows_mono[OF runCalls_grows[OF rc]]])
           (auto dest: is_ctl_not_event)
      from grows_trans[OF grows_trans[OF 0 1] Cons.IH[OF rec]] show ?thesis .
    qed
  qed
qed

lemma invokeCallback_reentrant_events:
  assumes a: "invokeCallback_reentrant p y calls i s = Inr s'"
    and lt: "i < length (mResponses s)"
    and cbk: "ident (rsp_request (mResponses s ! i)) = POLL_CALLBACK"
  shows "grows (callback_of (drop i (mResponses s))) s s'"
proof -
  let ?resp = "mResponses s ! i"
  let ?P = "callback_of (drop i (mResponses s))"
  from a obtain cb where cb: "callback (rsp_request ?resp) = Some cb"
    by (auto simp: invokeCallback_reentrant_def Let_def split: option.splits)
  let ?e = "HandleEvent cb (fd (rsp_request ?resp)) (rsp_events ?resp) (data (rsp_request ?resp))"
  from a cb obtain s1 where rc: "runCalls p y (emit ?e s) calls = Inr s1"
    by (auto simp: invokeCallback_reentrant_def Let_def split: sum.splits)
  have "?resp \<in> set (drop i (mResponses s))"
    using lt by (metis Cons_nth_drop_Suc list.set_intros(1))
  with cb cbk have pe: "?P ?e"
    by (auto simp: callback_of_def)
  have 1: "grows ?P s (emit ?e s)" using pe by (rule grows_emit[where P = "?P"])
  have 2: "grows ?P (emit ?e s) s1"
    by (rule grows_mono[OF runCalls_grows[OF rc]])
       (auto dest: is_ctl_not_event intro: callback_of_not_event)
  have 3: "grows ?P s1 s'"
  proof (cases "handleEvent y cb (fd (rsp_request ?resp)) (rsp_events ?resp)
                  (data (rsp_request ?resp)) = 0")
    case False
    with a cb rc show ?thesis
      by (auto simp: invokeCallback_reentrant_def Let_def intro!: grows_same)
  next
    case True
    with a cb rc obtain r2 s2 where
      r: "removeSequenceNumberLocked p y s1 (rsp_seq ?resp) = Inr (r2, s2)"
      and s': "effects s' = effects s2"
      by (auto simp: invokeCallback_reentrant_def Let_def split: sum.splits)
    have "grows ?P s1 s2"
      by (rule removeSeq_grows[OF r])
         (auto simp: is_ctl_def callback_of_def split: effect.splits)
    with s' show ?thesis by (auto elim: grows_eq)
  qed
  from grows_trans[OF grows_trans[OF 1 2] 3] show ?thesis .
qed

lemma invokeCallbacks_reentrant_responses:
  "invokeCallbacks_reentrant p y calls i s r = Inr (r', s') \<Longrightarrow>
     list_all2 settled (mResponses s) (mResponses s') \<and> mResponseIndex s' = mResponseIndex s"
proof (induction p y calls i s r arbitrary: r' s' rule: invokeCallbacks_reentrant.induct)
  case (1 p y calls i s result)
  show ?case
  proof (cases "i < length (mResponses s)")
    case False
    with "1.prems" show ?thesis
      by (subst (asm) invokeCallbacks_reentrant.simps)
         (auto intro: list_all2_refl settled_refl)
  next
    case True
    note lt = this
    show ?thesis
    proof (cases "ident (rsp_request (mResponses s ! i)) = POLL_CALLBACK")
      case False
      with lt "1.prems" have
        "invokeCallbacks_reentrant p y calls (i + 1) s result = Inr (r', s')"
        by (subst (asm) invokeCallbacks_reentrant.simps) simp
      from "1.IH"(2)[OF lt False this] show ?thesis .
    next
      case True
      with lt "1.prems" obtain s1 where
        one: "invokeCallback_reentrant p y (calls i) i s = Inr s1"
        and rec: "invokeCallbacks_reentrant p y calls (i + 1) s1 POLL_CALLBACK = Inr (r', s')"
        by (subst (asm) invokeCallbacks_reentrant.simps) (auto split: sum.splits)
      from invokeCallback_reentrant_responses[OF one] settled_update[OF lt True]
      have a: "list_all2 settled (mResponses s) (mResponses s1)"
        "mResponseIndex s1 = mResponseIndex s" by simp_all
      from "1.IH"(1)[OF lt True one rec]
      have b: "list_all2 settled (mResponses s1) (mResponses s')"
        "mResponseIndex s' = mResponseIndex s1" by simp_all
      from list_all2_trans[of settled settled settled, OF _ a(1) b(1)] a(2) b(2)
      show ?thesis by (auto intro: settled_trans)
    qed
  qed
qed

lemma invokeCallbacks_reentrant_events:
  "invokeCallbacks_reentrant p y calls i s r = Inr (r', s') \<Longrightarrow>
     grows (callback_of (drop i (mResponses s))) s s'"
proof (induction p y calls i s r arbitrary: r' s' rule: invokeCallbacks_reentrant.induct)
  case (1 p y calls i s result)
  show ?case
  proof (cases "i < length (mResponses s)")
    case False
    with "1.prems" show ?thesis
      by (subst (asm) invokeCallbacks_reentrant.simps) (auto intro: grows_same)
  next
    case True
    note lt = this
    have sub: "set (drop (i + 1) (mResponses s)) \<subseteq> set (drop i (mResponses s))"
      by (metis Suc_eq_plus1 drop_Suc set_drop_subset tl_drop drop_drop add.commute)
    show ?thesis
    proof (cases "ident (rsp_request (mResponses s ! i)) = POLL_CALLBACK")
      case False
      with lt "1.prems" have
        "invokeCallbacks_reentrant p y calls (i + 1) s result = Inr (r', s')"
        by (subst (asm) invokeCallbacks_reentrant.simps) simp
      from "1.IH"(2)[OF lt False this] show ?thesis
        by (rule grows_mono) (rule callback_of_mono[OF _ sub])
    next
      case True
      with lt "1.prems" obtain s1 where
        one: "invokeCallback_reentrant p y (calls i) i s = Inr s1"
        and rec: "invokeCallbacks_reentrant p y calls (i + 1) s1 POLL_CALLBACK = Inr (r', s')"
        by (subst (asm) invokeCallbacks_reentrant.simps) (auto split: sum.splits)
      have d: "drop (i + 1) (mResponses s1) = drop (i + 1) (mResponses s)"
        using invokeCallback_reentrant_responses[OF one] by simp
      from "1.IH"(1)[OF lt True one rec]
      have "grows (callback_of (drop (i + 1) (mResponses s))) s1 s'"
        unfolding d .
      then have "grows (callback_of (drop i (mResponses s))) s1 s'"
        by (rule grows_mono) (rule callback_of_mono[OF _ sub])
      from grows_trans[OF invokeCallback_reentrant_events[OF one lt True] this]
      show ?thesis .
    qed
  qed
qed

text \<open>The responses of an inner poll are translated from the request table as it is
  when the wait returns, whatever user code does later in the poll; the callbacks the
  poll invokes are those of these responses.\<close>

lemma pollInner_reentrant_responses:
  assumes a: "pollInner_reentrant p y u s t = Inr (r, s')"
  shows "list_all2 settled (producedResponses s y) (mResponses s') \<and> mResponseIndex s' = 0"
proof -
  let ?s3 = "kernelWait p (adjustTimeout y s t)
               (s\<lparr>mResponses := [], mResponseIndex := 0, mPolling := True\<rparr>)\<lparr>mPolling := False\<rparr>"
  from a obtain r4 s4 r5 s5 where
    pe: "pollEvents p y ?s3 = Inr (r4, s4)"
    and dm: "drainMessages_reentrant p y (on_message u) 0
               (s4\<lparr>mNextMessageUptime := LLONG_MAX\<rparr>) r4 = Inr (r5, s5)"
    and ic: "invokeCallbacks_reentrant p y (on_event u) 0 s5 r5 = Inr (r, s')"
    by (auto simp: pollInner_reentrant_def Let_def split: sum.splits prod.splits)
  have "mResponses ?s3 = []" by (simp add: kernelWait_effect)
  from pollEvents_responses[OF pe this]
  have 4: "mResponses s4 = producedResponses s y" "mResponseIndex s4 = 0"
    by (simp_all add: producedResponses_def kernelWait_effect cong: wait_result.case_cong)
  from drainMessages_reentrant_responses[OF dm] 4
  have 5: "mResponses s5 = producedResponses s y" "mResponseIndex s5 = 0" by simp_all
  from invokeCallbacks_reentrant_responses[OF ic] 5 show ?thesis by simp
qed

lemma pollInner_reentrant_events:
  assumes a: "pollInner_reentrant p y u s t = Inr (r, s')"
  shows "grows (callback_of (producedResponses s y)) s s'"
proof -
  let ?P = "callback_of (producedResponses s y)"
  let ?s1 = "s\<lparr>mResponses := [], mResponseIndex := 0, mPolling := True\<rparr>"
  let ?s3 = "kernelWait p (adjustTimeout y s t) ?s1\<lparr>mPolling := False\<rparr>"
  from a obtain r4 s4 r5 s5 where
    pe: "pollEvents p y ?s3 = Inr (r4, s4)"
    and dm: "drainMessages_reentrant p y (on_message u) 0
               (s4\<lparr>mNextMessageUptime := LLONG_MAX\<rparr>) r4 = Inr (r5, s5)"
    and ic: "invokeCallbacks_reentrant p y (on_event u) 0 s5 r5 = Inr (r, s')"
    by (auto simp: pollInner_reentrant_def Let_def split: sum.splits prod.splits)
  have "mResponses ?s3 = []" by (simp add: kernelWait_effect)
  from pollEvents_responses[OF pe this]
  have 4: "mResponses s4 = producedResponses s y"
    by (simp add: producedResponses_def kernelWait_effect cong: wait_result.case_cong)
  from drainMessages_reentrant_responses[OF dm] 4
  have 5: "mResponses s5 = producedResponses s y" by simp
  have g3: "grows ?P s ?s3"
    unfolding grows_def
    by (intro exI[of _ "[waitEffect p (adjustTimeout y s t)]"])
       (simp add: kernelWait_effect callback_of_def waitEffect_def split: platform.splits)
  have g4: "grows ?P ?s3 (s4\<lparr>mNextMessageUptime := LLONG_MAX\<rparr>)"
    by (rule grows_eq[OF grows_mono[OF pollEvents_grows[OF pe]]])
       (auto simp: is_internal_def callback_of_def split: effect.splits)
  have g5: "grows ?P (s4\<lparr>mNextMessageUptime := LLONG_MAX\<rparr>) s5"
    by (rule grows_mono[OF drainMessages_reentrant_grows[OF dm]])
       (rule callback_of_not_event)
  have g6: "grows ?P s5 s'"
    using invokeCallbacks_reentrant_events[OF ic] 5 by simp
  from grows_trans[OF grows_trans[OF grows_trans[OF g3 g4] g5] g6] show ?thesis .
qed

lemma pollInner_reentrant_no_stale:
  assumes a: "pollInner_reentrant p y u s t = Inr (r, s2)" and n: "mRequests s sq = None"
  shows "\<forall>rsp \<in> set (mResponses s2). rsp_seq rsp \<noteq> sq"
proof -
  from pollInner_reentrant_responses[OF a] have "map rsp_seq (mResponses s2) =
      map rsp_seq (producedResponses s y)"
    by (simp add: settled_seq)
  then have "rsp_seq ` set (mResponses s2) = rsp_seq ` set (producedResponses s y)"
    by (metis set_map)
  moreover have "sq \<notin> rsp_seq ` set (producedResponses s y)"
    using n by (auto dest: producedResponses_registered)
  ultimately show ?thesis by auto
qed


text \<open>
  Claim C2, as amended.  A successful \<open>addFd\<close> on a descriptor that is already indexed
  points the index at the new sequence number and leaves nothing of the old registration
  under the old one.  An item of the wait whose sequence number is not in the request
  table (and is not the wake channel's) changes nothing: no response, no effect.  The
  responses of an inner poll are translated from the request table as it stands when the
  wait returns, each with its own copy of the request, and the callbacks the poll invokes
  are the callbacks of these responses, whatever calls user code makes during the poll.
  So a poll that starts after the old sequence number is gone has no response for it and
  invokes no callback on its behalf, and unregistering it again changes nothing; a poll
  that had translated the old registration before the second \<open>addFd\<close> ran still invokes
  the old callback.
\<close>

theorem stale_registration_discarded:
  "(mSequenceNumberByFd s f = Some oldSeq \<and> addFd p y s f idt evs cb d = Inr (1, s1) \<longrightarrow>
      mSequenceNumberByFd s1 f = Some (nextSeq s)
      \<and> mRequests s1 oldSeq =
          (if oldSeq = nextSeq s then Some (newRequest f idt evs cb d) else None))
   \<and> (item_seq it \<noteq> WAKE_EVENT_FD_SEQ \<and> mRequests s (item_seq it) = None \<longrightarrow>
        handleItem s it = s)
   \<and> (pollInner_reentrant p y u s t = Inr (r, s2) \<longrightarrow>
        (\<forall>rsp \<in> set (producedResponses s y).
            mRequests s (rsp_seq rsp) = Some (rsp_request rsp))
        \<and> list_all2 settled (producedResponses s y) (mResponses s2)
        \<and> grows (callback_of (producedResponses s y)) s s2)
   \<and> (pollInner_reentrant p y u s t = Inr (r, s2) \<and> mRequests s sq = None \<longrightarrow>
        (\<forall>rsp \<in> set (producedResponses s y). rsp_seq rsp \<noteq> sq)
        \<and> (\<forall>rsp \<in> set (mResponses s2). rsp_seq rsp \<noteq> sq))
   \<and> (mRequests s sq = None \<longrightarrow> removeSequenceNumberLocked p y s sq = Inr (0, s))
   \<and> pollInner_reentrant p y quiet s t = pollInner p y s t"
proof -
  have a: "mSequenceNumberByFd s f = Some oldSeq \<and> addFd p y s f idt evs cb d = Inr (1, s1) \<longrightarrow>
      mSequenceNumberByFd s1 f = Some (nextSeq s)
      \<and> mRequests s1 oldSeq =
          (if oldSeq = nextSeq s then Some (newRequest f idt evs cb d) else None)"
  proof
    assume h: "mSequenceNumberByFd s f = Some oldSeq \<and> addFd p y s f idt evs cb d = Inr (1, s1)"
    from addFd_success_replace[of p y s f idt evs cb d s1 oldSeq] h
    show "mSequenceNumberByFd s1 f = Some (nextSeq s)
      \<and> mRequests s1 oldSeq =
          (if oldSeq = nextSeq s then Some (newRequest f idt evs cb d) else None)"
      by (simp add: emplace_def split: option.splits)
  qed
  have b: "item_seq it \<noteq> WAKE_EVENT_FD_SEQ \<and> mRequests s (item_seq it) = None \<longrightarrow>
        handleItem s it = s"
    by (simp add: handleItem_def)
  have c: "pollInner_reentrant p y u s t = Inr (r, s2) \<longrightarrow>
        (\<forall>rsp \<in> set (producedResponses s y).
            mRequests s (rsp_seq rsp) = Some (rsp_request rsp))
        \<and> list_all2 settled (producedResponses s y) (mResponses s2)
        \<and> grows (callback_of (producedResponses s y)) s s2"
    using pollInner_reentrant_responses[of p y u s t r s2]
      pollInner_reentrant_events[of p y u s t r s2]
      producedResponses_registered[of _ s y]
    by blast
  have d: "pollInner_reentrant p y u s t = Inr (r, s2) \<and> mRequests s sq = None \<longrightarrow>
        (\<forall>rsp \<in> set (producedResponses s y). rsp_seq rsp \<noteq> sq)
        \<and> (\<forall>rsp \<in> set (mResponses s2). rsp_seq rsp \<noteq> sq)"
  proof
    assume h: "pollInner_reentrant p y u s t = Inr (r, s2) \<and> mRequests s sq = None"
    then have "\<forall>rsp \<in> set (producedResponses s y). rsp_seq rsp \<noteq> sq"
      by (auto dest: producedResponses_registered)
    moreover from h pollInner_reentrant_no_stale[of p y u s t r s2 sq]
    have "\<forall>rsp \<in> set (mResponses s2). rsp_seq rsp \<noteq> sq" by blast
    ultimately show "(\<forall>rsp \<in> set (producedResponses s y). rsp_seq rsp \<noteq> sq)
        \<and> (\<forall>rsp \<in> set (mResponses s2). rsp_seq rsp \<noteq> sq)" by blast
  qed
  have e: "mRequests s sq = None \<longrightarrow> removeSequenceNumberLocked p y s sq = Inr (0, s)"
    by (simp add: removeSeq_absent)
  have f: "pollInner_reentrant p y quiet s t = pollInner p y s t"
    by (rule pollInner_quiet)
  from a b c d e f show ?thesis by argo
qed

text \<open>
  The claim as stated has the old callback never invoked again after the second
  \<open>addFd\<close>.  Below, descriptor 5 is registered under sequence number 2 with callback 77,
  and a message is due.  The wait reports descriptor 5, and the poll translates the item
  into a response that holds callback 77.  Then the message is dispatched, and its
  handler registers descriptor 5 again, with callback 78: the request under 2 is erased
  and the index points at 3.  The callback loop then invokes callback 77 of the
  response.
\<close>

definition stale_looper :: looper where
  "stale_looper = registered_looper\<lparr>mMessageEnvelopes := [sample_message]\<rparr>"

definition reregistering_code :: user_code where
  "reregistering_code =
     \<lparr>on_message = [[CallAddFd 5 0 1 (Some 78) 0]], on_event = (\<lambda>i. [])\<rparr>"

text \<open>The state in which the handler makes its call, and the state the poll leaves.\<close>

definition handling_looper :: looper where
  "handling_looper =
     stale_looper\<lparr>mSendingMessage := True,
       mResponses := [\<lparr>rsp_seq = 2, rsp_events = 1, rsp_request = sample_request\<rparr>],
       mMessageEnvelopes := [],
       effects := [EpollWait (-1), HandleMessage 1 \<lparr>what = 9\<rparr>]\<rparr>"

definition overtaken_looper :: looper where
  "overtaken_looper =
     stale_looper\<lparr>mNextRequestSeq := 4,
       mRequests := [3 \<mapsto> sample_request\<lparr>callback := Some 78\<rparr>],
       mSequenceNumberByFd := [5 \<mapsto> 3],
       mResponses := [\<lparr>rsp_seq = 2, rsp_events = 1,
                       rsp_request = sample_request\<lparr>callback := None\<rparr>\<rparr>],
       mMessageEnvelopes := [],
       effects := [EpollWait (-1), HandleMessage 1 \<lparr>what = 9\<rparr>,
                   EpollCtl EPOLL_CTL_MOD 5 (Some \<lparr>ep_events = 1, ep_u64 = 3\<rparr>),
                   HandleEvent 77 5 1 0]\<rparr>"

lemmas reentrant_poll_defs =
  pollInner_reentrant_def drainMessages_reentrant.simps invokeCallbacks_reentrant.simps
  invokeCallback_reentrant_def runCalls.simps runCall_def
  addFd_def addFd_epoll_def replaceRequest_def insertRequest_def emplace_def
  getEpollEvents_def createEpollEvent_def
  registered_looper_def sample_request_def

theorem stale_callback_counterexample:
  "mSequenceNumberByFd stale_looper 5 = Some 2
   \<and> mRequests stale_looper 2 = Some sample_request
   \<and> callback sample_request = Some 77
   \<and> addFd HAVE_EPOLL ready_env handling_looper 5 0 1 (Some 78) 0 =
       Inr (1, handling_looper\<lparr>mNextRequestSeq := 4,
                 mRequests := [3 \<mapsto> sample_request\<lparr>callback := Some 78\<rparr>],
                 mSequenceNumberByFd := [5 \<mapsto> 3],
                 effects := [EpollWait (-1), HandleMessage 1 \<lparr>what = 9\<rparr>,
                   EpollCtl EPOLL_CTL_MOD 5 (Some \<lparr>ep_events = 1, ep_u64 = 3\<rparr>)]\<rparr>)
   \<and> pollInner_reentrant HAVE_EPOLL ready_env reregistering_code stale_looper (-1) =
       Inr (POLL_CALLBACK, overtaken_looper)
   \<and> mRequests overtaken_looper 2 = None
   \<and> mSequenceNumberByFd overtaken_looper 5 = Some 3
   \<and> effects overtaken_looper =
       [EpollWait (-1), HandleMessage 1 \<lparr>what = 9\<rparr>,
        EpollCtl EPOLL_CTL_MOD 5 (Some \<lparr>ep_events = 1, ep_u64 = 3\<rparr>),
        HandleEvent 77 5 1 0]"
  by (simp add: stale_looper_def reregistering_code_def handling_looper_def
      overtaken_looper_def reentrant_poll_defs sample_poll_defs)

text \<open>Descriptor 5, registered under 2 with callback 77, is registered again with
  callback 78 before the poll.  The wait still reports the old sequence number 2, and
  the new one; only callback 78 is invoked, and it wakes the Looper while it runs.\<close>

definition reregistered_looper :: looper where
  "reregistered_looper =
     registered_looper\<lparr>mNextRequestSeq := 4,
       mRequests := [3 \<mapsto> sample_request\<lparr>callback := Some 78\<rparr>],
       mSequenceNumberByFd := [5 \<mapsto> 3],
       effects := [EpollCtl EPOLL_CTL_MOD 5 (Some \<lparr>ep_events = 1, ep_u64 = 3\<rparr>)]\<rparr>"

definition stale_env :: env where
  "stale_env =
     sample_env\<lparr>kernel_wait :=
       WaitReturned [EpollItem \<lparr>ep_events = 1, ep_u64 = 2\<rparr>,
                     EpollItem \<lparr>ep_events = 1, ep_u64 = 3\<rparr>]\<rparr>"

definition waking_code :: user_code where
  "waking_code = \<lparr>on_message = [], on_event = (\<lambda>i. [CallWake])\<rparr>"

theorem stale_registration_discarded_witness:
  "addFd HAVE_EPOLL sample_env registered_looper 5 0 1 (Some 78) 0 =
     Inr (1, reregistered_looper)
   \<and> mSequenceNumberByFd reregistered_looper 5 = Some 3
   \<and> mRequests reregistered_looper 2 = None
   \<and> pollInner_reentrant HAVE_EPOLL stale_env waking_code reregistered_looper 0 =
       Inr (POLL_CALLBACK,
            reregistered_looper\<lparr>mResponses :=
                [\<lparr>rsp_seq = 3, rsp_events = 1,
                  rsp_request = sample_request\<lparr>callback := None\<rparr>\<rparr>],
              effects := effects reregistered_looper @
                [EpollWait 0, HandleEvent 78 5 1 0, WakeWrite]\<rparr>)
   \<and> producedResponses reregistered_looper stale_env =
       [\<lparr>rsp_seq = 3, rsp_events = 1, rsp_request = sample_request\<lparr>callback := Some 78\<rparr>\<rparr>]
   \<and> grows (callback_of (producedResponses reregistered_looper stale_env))
        reregistered_looper
        (reregistered_looper\<lparr>mResponses :=
                [\<lparr>rsp_seq = 3, rsp_events = 1,
                  rsp_request = sample_request\<lparr>callback := None\<rparr>\<rparr>],
              effects := effects reregistered_looper @
                [EpollWait 0, HandleEvent 78 5 1 0, WakeWrite]\<rparr>)"
proof -
  have a: "addFd HAVE_EPOLL sample_env registered_looper 5 0 1 (Some 78) 0 =
     Inr (1, reregistered_looper)"
    by (simp add: addFd_def addFd_epoll_def Let_def reregistered_looper_def
        registered_looper_def sample_looper_def newLooper_def sample_env_def
        WAKE_EVENT_FD_SEQ_def replaceRequest_def emplace_def emit_def getEpollEvents_def
        createEpollEvent_def EVENT_INPUT_def EVENT_OUTPUT_def EPOLLIN_def EPOLLOUT_def
        POLL_CALLBACK_def sample_request_def)
  have i: "mSequenceNumberByFd registered_looper 5 = Some 2" "nextSeq registered_looper = 3"
    by (simp_all add: registered_looper_def nextSeq_def WAKE_EVENT_FD_SEQ_def)
  have p: "pollInner_reentrant HAVE_EPOLL stale_env waking_code reregistered_looper 0 =
       Inr (POLL_CALLBACK,
            reregistered_looper\<lparr>mResponses :=
                [\<lparr>rsp_seq = 3, rsp_events = 1,
                  rsp_request = sample_request\<lparr>callback := None\<rparr>\<rparr>],
              effects := effects reregistered_looper @
                [EpollWait 0, HandleEvent 78 5 1 0, WakeWrite]\<rparr>)"
    by (simp add: reregistered_looper_def stale_env_def waking_code_def wake_def
        reentrant_poll_defs sample_poll_defs)
  have q: "producedResponses reregistered_looper stale_env =
       [\<lparr>rsp_seq = 3, rsp_events = 1, rsp_request = sample_request\<lparr>callback := Some 78\<rparr>\<rparr>]"
    by (simp add: producedResponses_def translated_def response_of_def reregistered_looper_def
        stale_env_def registered_looper_def sample_request_def sample_poll_defs)
  from stale_registration_discarded[where s = registered_looper and f = 5 and oldSeq = 2
      and p = HAVE_EPOLL and y = sample_env and idt = 0 and evs = 1 and cb = "Some 78"
      and d = 0 and ?s1.0 = reregistered_looper] a i
  have "mSequenceNumberByFd reregistered_looper 5 = Some 3
      \<and> mRequests reregistered_looper 2 = None"
    by simp
  moreover from stale_registration_discarded[where s = reregistered_looper
      and p = HAVE_EPOLL and y = stale_env and u = waking_code and t = 0
      and r = POLL_CALLBACK
      and ?s2.0 = "reregistered_looper\<lparr>mResponses :=
                [\<lparr>rsp_seq = 3, rsp_events = 1,
                  rsp_request = sample_request\<lparr>callback := None\<rparr>\<rparr>],
              effects := effects reregistered_looper @
                [EpollWait 0, HandleEvent 78 5 1 0, WakeWrite]\<rparr>"] p
  have "grows (callback_of (producedResponses reregistered_looper stale_env))
        reregistered_looper
        (reregistered_looper\<lparr>mResponses :=
                [\<lparr>rsp_seq = 3, rsp_events = 1,
                  rsp_request = sample_request\<lparr>callback := None\<rparr>\<rparr>],
              effects := effects reregistered_looper @
                [EpollWait 0, HandleEvent 78 5 1 0, WakeWrite]\<rparr>)"
    by blast
  ultimately show ?thesis using a p q by simp
qed

section \<open>pollAll\<close>

lemma pollAll_nowait_result:
  "pollAll_nowait p ys s t = Some (Inr (ret, s')) \<Longrightarrow> fst ret \<noteq> POLL_CALLBACK"
proof (induction ys arbitrary: s)
  case Nil
  then show ?case by simp
next
  case (Cons y ys)
  then show ?case
    by (auto split: sum.splits if_splits)
qed

lemma pollAll_deadline_result:
  "pollAll_deadline p ys s t endTime = Some (Inr (ret, s')) \<Longrightarrow> fst ret \<noteq> POLL_CALLBACK"
proof (induction ys arbitrary: s t)
  case Nil
  then show ?case by simp
next
  case (Cons y ys)
  then show ?case
    by (auto simp: Let_def POLL_TIMEOUT_def POLL_CALLBACK_def split: sum.splits if_splits)
qed

text \<open>A run of the first loop that has not returned has used up its environments, every
  call having returned \<open>POLL_CALLBACK\<close>.\<close>

lemma pollAll_nowait_None:
  "pollAll_nowait p ys s t = None \<Longrightarrow>
     \<exists>rets s'. pollOnces p ys s t = Inr (rets, s') \<and> length rets = length ys
        \<and> (\<forall>ret \<in> set rets. fst ret = POLL_CALLBACK)"
proof (induction ys arbitrary: s)
  case Nil
  show ?case by simp
next
  case (Cons y ys)
  from Cons.prems obtain ret s1 where
    1: "pollOnce p y s t = Inr (ret, s1)" "fst ret = POLL_CALLBACK"
    "pollAll_nowait p ys s1 t = None"
    by (auto split: sum.splits if_splits)
  from Cons.IH[OF 1(3)] obtain rets s' where
    2: "pollOnces p ys s1 t = Inr (rets, s')" "length rets = length ys"
    "\<forall>ret \<in> set rets. fst ret = POLL_CALLBACK"
    by blast
  with 1 show ?case
    by (intro exI[of _ "ret # rets"] exI[of _ s']) simp
qed

text \<open>
  Claim C10.  Whatever the timeout, a \<open>pollAll\<close> that returns does not return
  \<open>POLL_CALLBACK\<close>.  With a timeout of at most 0 it calls \<open>pollOnce\<close> with that timeout
  until a result differs from \<open>POLL_CALLBACK\<close>, and returns that result; as long as it has
  not returned, every call so far returned \<open>POLL_CALLBACK\<close>.  With a positive timeout the
  deadline is the time of the first clock reading plus the timeout; after each
  \<open>POLL_CALLBACK\<close> the remaining time to that same deadline is computed afresh, and when it
  is 0 the call returns \<open>POLL_TIMEOUT\<close>.
\<close>

theorem pollAll_never_callback:
  "(\<forall>ret s'. pollAll p now0 ys s t = Some (Inr (ret, s')) \<longrightarrow> fst ret \<noteq> POLL_CALLBACK)
   \<and> (t \<le> 0 \<longrightarrow>
        pollAll p now0 (y # ys) s t =
          (case pollOnce p y s t of
             Inl x \<Rightarrow> Some (Inl x)
           | Inr (ret, s1) \<Rightarrow>
               (if fst ret = POLL_CALLBACK then pollAll p now0 ys s1 t
                else Some (Inr (ret, s1)))))
   \<and> (t \<le> 0 \<and> pollAll p now0 ys s t = None \<longrightarrow>
        (\<exists>rets s'. pollOnces p ys s t = Inr (rets, s') \<and> length rets = length ys
           \<and> (\<forall>ret \<in> set rets. fst ret = POLL_CALLBACK)))
   \<and> (0 < t \<longrightarrow>
        pollAll p now0 (y # ys) s t =
          (case pollOnce p y s t of
             Inl x \<Rightarrow> Some (Inl x)
           | Inr (ret, s1) \<Rightarrow>
               (if fst ret \<noteq> POLL_CALLBACK then Some (Inr (ret, s1))
                else if toMillisecondTimeoutDelay y (systemTime_after y)
                          (now0 + t * 1000000) = 0
                then Some (Inr ((POLL_TIMEOUT, snd ret), s1))
                else pollAll_deadline p ys s1
                       (toMillisecondTimeoutDelay y (systemTime_after y) (now0 + t * 1000000))
                       (now0 + t * 1000000))))"
proof -
  have a: "\<forall>ret s'. pollAll p now0 ys s t = Some (Inr (ret, s')) \<longrightarrow> fst ret \<noteq> POLL_CALLBACK"
  proof (cases "t \<le> 0")
    case True
    then show ?thesis
      using pollAll_nowait_result[of p ys s t] by (simp add: pollAll_def)
  next
    case False
    then show ?thesis
      using pollAll_deadline_result[of p ys s t "now0 + milliseconds_to_nanoseconds t"]
      by (simp add: pollAll_def)
  qed
  have b: "t \<le> 0 \<longrightarrow>
        pollAll p now0 (y # ys) s t =
          (case pollOnce p y s t of
             Inl x \<Rightarrow> Some (Inl x)
           | Inr (ret, s1) \<Rightarrow>
               (if fst ret = POLL_CALLBACK then pollAll p now0 ys s1 t
                else Some (Inr (ret, s1))))"
    by (simp add: pollAll_def split: sum.splits prod.splits)
  have c: "t \<le> 0 \<and> pollAll p now0 ys s t = None \<longrightarrow>
        (\<exists>rets s'. pollOnces p ys s t = Inr (rets, s') \<and> length rets = length ys
           \<and> (\<forall>ret \<in> set rets. fst ret = POLL_CALLBACK))"
    using pollAll_nowait_None[of p ys s t] by (simp add: pollAll_def)
  have d: "0 < t \<longrightarrow>
        pollAll p now0 (y # ys) s t =
          (case pollOnce p y s t of
             Inl x \<Rightarrow> Some (Inl x)
           | Inr (ret, s1) \<Rightarrow>
               (if fst ret \<noteq> POLL_CALLBACK then Some (Inr (ret, s1))
                else if toMillisecondTimeoutDelay y (systemTime_after y)
                          (now0 + t * 1000000) = 0
                then Some (Inr ((POLL_TIMEOUT, snd ret), s1))
                else pollAll_deadline p ys s1
                       (toMillisecondTimeoutDelay y (systemTime_after y) (now0 + t * 1000000))
                       (now0 + t * 1000000)))"
    by (simp add: pollAll_def milliseconds_to_nanoseconds_def Let_def
        split: sum.splits prod.splits)
  from a b c d show ?thesis by argo
qed

text \<open>A message is due in the first environment only.  Without a timeout the first
  \<open>pollOnce\<close> returns \<open>POLL_CALLBACK\<close> and the second one's \<open>POLL_TIMEOUT\<close> is returned.
  With a timeout of 100 ms, if the clock reads 200 ms after the first \<open>pollOnce\<close>, the call
  returns \<open>POLL_TIMEOUT\<close> without a second one.\<close>

definition message_looper :: looper where
  "message_looper = sample_looper\<lparr>mMessageEnvelopes := [sample_message]\<rparr>"

definition due_env :: env where
  "due_env = sample_env\<lparr>systemTime_drain := \<lambda>k. 7, systemTime_after := 200000000\<rparr>"

theorem pollAll_never_callback_witness:
  "pollOnce HAVE_EPOLL due_env message_looper 0 =
     Inr ((POLL_CALLBACK, 0, 0, 0),
          message_looper\<lparr>mMessageEnvelopes := [],
            effects := [EpollWait 0, HandleMessage 1 \<lparr>what = 9\<rparr>]\<rparr>)
   \<and> pollAll HAVE_EPOLL 0 [due_env, sample_env] message_looper 0 =
       Some (Inr ((POLL_TIMEOUT, 0, 0, 0),
          message_looper\<lparr>mMessageEnvelopes := [],
            effects := [EpollWait 0, HandleMessage 1 \<lparr>what = 9\<rparr>, EpollWait 0]\<rparr>))
   \<and> pollAll HAVE_EPOLL 0 [due_env] message_looper 0 = None
   \<and> pollAll HAVE_EPOLL 0 [due_env, sample_env] message_looper 100 =
       Some (Inr ((POLL_TIMEOUT, 0, 0, 0),
          message_looper\<lparr>mMessageEnvelopes := [],
            effects := [EpollWait 100, HandleMessage 1 \<lparr>what = 9\<rparr>]\<rparr>))
   \<and> POLL_TIMEOUT \<noteq> POLL_CALLBACK"
proof -
  note defs = message_looper_def due_env_def sample_poll_defs
  have 1: "pollOnce HAVE_EPOLL due_env message_looper 0 =
     Inr ((POLL_CALLBACK, 0, 0, 0),
          message_looper\<lparr>mMessageEnvelopes := [],
            effects := [EpollWait 0, HandleMessage 1 \<lparr>what = 9\<rparr>]\<rparr>)"
    by (simp add: defs)
  have b1: "pollOnce HAVE_EPOLL due_env message_looper 100 =
     Inr ((POLL_CALLBACK, 0, 0, 0),
          message_looper\<lparr>mMessageEnvelopes := [],
            effects := [EpollWait 100, HandleMessage 1 \<lparr>what = 9\<rparr>]\<rparr>)"
    by (simp add: defs)
  have 2: "pollOnce HAVE_EPOLL sample_env
      (message_looper\<lparr>mMessageEnvelopes := [],
            effects := [EpollWait 0, HandleMessage 1 \<lparr>what = 9\<rparr>]\<rparr>) 0 =
     Inr ((POLL_TIMEOUT, 0, 0, 0),
          message_looper\<lparr>mMessageEnvelopes := [],
            effects := [EpollWait 0, HandleMessage 1 \<lparr>what = 9\<rparr>, EpollWait 0]\<rparr>)"
    by (simp add: defs)
  have ne: "POLL_TIMEOUT \<noteq> POLL_CALLBACK"
    by (simp add: POLL_TIMEOUT_def POLL_CALLBACK_def)
  have 3: "pollAll HAVE_EPOLL 0 [due_env, sample_env] message_looper 0 =
       Some (Inr ((POLL_TIMEOUT, 0, 0, 0),
          message_looper\<lparr>mMessageEnvelopes := [],
            effects := [EpollWait 0, HandleMessage 1 \<lparr>what = 9\<rparr>, EpollWait 0]\<rparr>))"
    using 1 2 ne by (simp add: pollAll_def)
  have 4: "pollAll HAVE_EPOLL 0 [due_env] message_looper 0 = None"
    using 1 by (simp add: pollAll_def)
  have d: "toMillisecondTimeoutDelay due_env (systemTime_after due_env) (0 + 100 * 1000000) = 0"
    by (simp add: due_env_def sample_env_def)
  have 5: "pollAll HAVE_EPOLL 0 [due_env, sample_env] message_looper 100 =
       Some (Inr ((POLL_TIMEOUT, 0, 0, 0),
          message_looper\<lparr>mMessageEnvelopes := [],
            effects := [EpollWait 100, HandleMessage 1 \<lparr>what = 9\<rparr>]\<rparr>))"
    using pollAll_never_callback[of HAVE_EPOLL 0 "[sample_env]" message_looper 100 due_env]
      b1 d
    by simp
  from 1 3 4 5 ne show ?thesis by simp
qed

end
